theory Spec2Isabelle
  imports Main
begin

unbundle bit_operations_syntax

section \<open>Machine arithmetic\<close>

text \<open>
  The source computes with \<open>guint\<close> (unsigned, 32 bit), \<open>int\<close>/\<open>gint\<close> (signed, 32 bit)
  and \<open>int64_t\<close>. All quantities are modelled as \<open>int\<close>. The result of every
  \<open>guint\<close> operation is reduced with \<open>u32\<close>, every conversion to \<open>int\<close> goes through
  \<open>s32\<close>. Values of type \<open>int64_t\<close> (sample positions and written lengths) are
  unbounded integers: signed 64 bit overflow is undefined in the source and not modelled.
  The two cursors are declared \<open>gint\<close> but only ever loaded into \<open>guint\<close> variables; the
  record below stores them as the unsigned value of their bit pattern.
\<close>

definition u32 :: "int \<Rightarrow> int" where
  "u32 x = x mod 2 ^ 32"

definition s32 :: "int \<Rightarrow> int" where
  "s32 x = (let y = x mod 2 ^ 32 in if y < 2 ^ 31 then y else y - 2 ^ 32)"

text \<open>
  \<open>memcpy (dst + doff, src + soff, n * sizeof (T))\<close> on arrays modelled as lists:
  the \<open>n\<close> slots of \<open>dst\<close> from \<open>doff\<close> on receive the \<open>n\<close> elements of \<open>src\<close> from
  \<open>soff\<close> on. The source never copies past the end of \<open>buf\<close>; reading past the end of
  the caller's array is undefined in the source and \<open>src ! i\<close> is unspecified there.
\<close>

definition memcpy :: "'a list \<Rightarrow> nat \<Rightarrow> 'a list \<Rightarrow> nat \<Rightarrow> nat \<Rightarrow> 'a list" where
  "memcpy dst doff src soff n =
     map (\<lambda>j. if doff \<le> j \<and> j < doff + n then src ! (soff + (j - doff)) else dst ! j)
         [0..<length dst]"

section \<open>Data model\<close>

datatype error = AssertionFailed | ShiftTooWide

record Segment =
  index :: int
  write_start_pos :: int
  write_start_offset :: int
  write_reversed :: bool

text \<open>The array \<open>Segment s[2]\<close> is a pair; \<open>seg_at s i\<close> is \<open>s[i]\<close> for \<open>i\<close> in \<open>{0, 1}\<close>.\<close>

definition seg_at :: "Segment \<times> Segment \<Rightarrow> int \<Rightarrow> Segment" where
  "seg_at s i = (if i = 0 then fst s else snd s)"

definition seg_set :: "Segment \<times> Segment \<Rightarrow> int \<Rightarrow> Segment \<Rightarrow> Segment \<times> Segment" where
  "seg_set s i v = (if i = 0 then (v, snd s) else (fst s, v))"

record 'a RaRingBuffer =
  buf :: "'a list"
  reservation :: int
  size_rb :: int
  size_mask :: int
  seg :: "Segment \<times> Segment"
  write_idx :: int
  read_idx :: int

section \<open>Operations\<close>

text \<open>
  \<open>reset\<close>. The model is sequential: the mutex and the spin lock are always free, except
  for the try-lock of \<open>read\<close>, whose outcome is a parameter there.
\<close>

definition reset :: "int \<Rightarrow> 'a RaRingBuffer \<Rightarrow> 'a RaRingBuffer" where
  "reset start b =
     b\<lparr>seg := ((fst (seg b))\<lparr>write_start_pos := start, write_start_offset := 0\<rparr>,
               (snd (seg b))\<lparr>write_start_offset := 0\<rparr>),
       write_idx := read_idx b\<rparr>"

text \<open>
  The constructor. The loop \<open>for (p = 1; 1U << p < sz; ++p)\<close> shifts by 32 when \<open>sz\<close>
  exceeds \<open>2^31\<close>, which is undefined: the model returns \<open>ShiftTooWide\<close>. The segment
  descriptors and the array are not initialised by the source (the \<open>Segment\<close> constructor
  is disabled); their first contents are the parameters \<open>junk\<close> and \<open>mem\<close>.
\<close>

function power_of_two_loop :: "int \<Rightarrow> nat \<Rightarrow> error + nat" where
  "power_of_two_loop sz p =
     (if 32 \<le> p then Inl ShiftTooWide
      else if u32 (2 ^ p) < sz then power_of_two_loop sz (p + 1)
      else Inr p)"
  by pat_completeness auto
termination
  by (relation "measure (\<lambda>(sz, p). 32 - p)") auto

declare power_of_two_loop.simps [simp del]

definition RaRingBuffer_new ::
  "int \<Rightarrow> int \<Rightarrow> Segment \<times> Segment \<Rightarrow> (nat \<Rightarrow> 'a) \<Rightarrow> error + 'a RaRingBuffer" where
  "RaRingBuffer_new sz res junk mem =
     (case power_of_two_loop (u32 (sz + res)) 1 of
        Inl e \<Rightarrow> Inl e
      | Inr power_of_two \<Rightarrow>
          let size = u32 (2 ^ power_of_two) in
          Inr (reset 0
                 \<lparr>buf = map mem [0..<nat size], reservation = res, size_rb = size,
                  size_mask = u32 (size - 1), seg = junk, write_idx = 0, read_idx = 0\<rparr>))"

text \<open>
  \<open>segment_to_use\<close>. \<open>ndebug\<close> says whether the build defines \<open>NDEBUG\<close>, that is whether
  \<open>assert\<close> is compiled out; a failed assertion aborts with \<open>AssertionFailed\<close>.
\<close>

definition segment_to_use ::
  "bool \<Rightarrow> 'a RaRingBuffer \<Rightarrow> Segment \<Rightarrow> Segment \<Rightarrow> int \<Rightarrow> error + int" where
  "segment_to_use ndebug b s0 s1 w =
     (let d0 = s32 (u32 (u32 (w - index s0) + (if w > index s0 then 0 else size_rb b)));
          d1 = s32 (u32 (u32 (w - index s1) + (if w > index s1 then 0 else size_rb b)))
      in if \<not> ndebug \<and> \<not> d0 \<noteq> d1 then Inl AssertionFailed
         else if d0 < d1 then Inr 0
         else Inr 1)"

definition next_write_pos :: "bool \<Rightarrow> 'a RaRingBuffer \<Rightarrow> error + int" where
  "next_write_pos ndebug b =
     (let s = seg b; w = write_idx b in
      if write_start_offset (seg_at s 0) = 0 \<and> write_start_offset (seg_at s 1) = 0 then
        Inr (write_start_pos (seg_at s 0))
      else if write_start_offset (seg_at s 0) \<noteq> 0 then
        Inr (write_start_pos (seg_at s 0) + write_start_offset (seg_at s 0))
      else if write_start_offset (seg_at s 1) \<noteq> 0 then
        Inr (write_start_pos (seg_at s 1) + write_start_offset (seg_at s 1))
      else
        (case segment_to_use ndebug b (seg_at s 0) (seg_at s 1) w of
           Inl e \<Rightarrow> Inl e
         | Inr segment \<Rightarrow>
             Inr (write_start_pos (seg_at s segment) + write_start_offset (seg_at s segment))))"

text \<open>
  The range test that \<open>can_read\<close> and \<open>read\<close> both write out for each segment:
  \<open>lrs\<close> is the end of the segment's range, \<open>frs\<close> its start.
\<close>

definition seg_lrs :: "Segment \<Rightarrow> int" where
  "seg_lrs sg = write_start_pos sg + write_start_offset sg"

definition seg_frs :: "'a RaRingBuffer \<Rightarrow> Segment \<Rightarrow> int" where
  "seg_frs b sg = seg_lrs sg - min (write_start_offset sg) (u32 (size_rb b - 1))"

definition seg_covers :: "'a RaRingBuffer \<Rightarrow> Segment \<Rightarrow> int \<Rightarrow> int \<Rightarrow> bool" where
  "seg_covers b sg start cnt =
     (write_start_offset sg > 0 \<and> start \<ge> seg_frs b sg \<and> start + cnt \<le> seg_lrs sg)"

definition can_read :: "'a RaRingBuffer \<Rightarrow> int \<Rightarrow> int \<Rightarrow> bool" where
  "can_read b start cnt =
     (let s = seg b in
      if seg_covers b (seg_at s 0) start cnt then True
      else if seg_covers b (seg_at s 1) start cnt then True
      else False)"

definition write_space :: "'a RaRingBuffer \<Rightarrow> int" where
  "write_space b =
     (let w = write_idx b; r = read_idx b;
          rv = (if w > r then u32 (u32 (r - w) + size_rb b) AND size_mask b
                else if w < r then u32 (r - w)
                else size_rb b)
      in if rv > reservation b then u32 (u32 (rv - 1) - reservation b) else 0)"

definition read_space :: "'a RaRingBuffer \<Rightarrow> int" where
  "read_space b =
     (let w = write_idx b; r = read_idx b in
      if w > r then u32 (w - r) else u32 (u32 (w - r) + size_rb b) AND size_mask b)"

definition increment_read_idx :: "int \<Rightarrow> 'a RaRingBuffer \<Rightarrow> 'a RaRingBuffer" where
  "increment_read_idx cnt b =
     (let cnt' = min cnt (read_space b) in
      b\<lparr>read_idx := u32 (read_idx b + cnt') AND size_mask b\<rparr>)"

definition read_flush :: "'a RaRingBuffer \<Rightarrow> 'a RaRingBuffer" where
  "read_flush b = b\<lparr>read_idx := write_idx b\<rparr>"

subsection \<open>write\<close>

text \<open>The method \<open>write\<close> is the constant \<open>write_rb\<close>: the bare name is reserved
  by the proof language.\<close>

text \<open>Lines 389 to 420: the space check, the copy in at most two spans, the publication.\<close>

definition write_copy ::
  "'a RaRingBuffer \<Rightarrow> 'a list \<Rightarrow> int \<Rightarrow> Segment \<times> Segment \<Rightarrow> int \<Rightarrow> int \<times> 'a RaRingBuffer" where
  "write_copy b src cnt s segment =
     (let priv_write_idx = write_idx b;
          free_cnt = write_space b
      in if free_cnt = 0 then (0, b)
         else
           let to_write = (if cnt > free_cnt then free_cnt else cnt);
               cnt2 = u32 (priv_write_idx + to_write);
               n1 = (if cnt2 > size_rb b then u32 (size_rb b - priv_write_idx) else to_write);
               n2 = (if cnt2 > size_rb b then cnt2 AND size_mask b else 0);
               buf1 = memcpy (buf b) (nat priv_write_idx) src 0 (nat n1);
               idx1 = u32 (priv_write_idx + n1) AND size_mask b;
               buf2 = (if n2 \<noteq> 0 then memcpy buf1 0 src (nat n1) (nat n2) else buf1);
               idx2 = (if n2 \<noteq> 0 then n2 else idx1);
               sg = seg_at s segment;
               sg' = sg\<lparr>write_start_offset := write_start_offset sg + to_write\<rparr>
           in (to_write, b\<lparr>buf := buf2, seg := seg_set (seg b) segment sg', write_idx := idx2\<rparr>))"

text \<open>Lines 378 to 387, then the copy: a start that does not continue the chosen
  segment opens the other one.\<close>

definition write_rest ::
  "bool \<Rightarrow> 'a RaRingBuffer \<Rightarrow> 'a list \<Rightarrow> int \<Rightarrow> int \<Rightarrow> Segment \<times> Segment \<Rightarrow> int
     \<Rightarrow> error + int \<times> 'a RaRingBuffer" where
  "write_rest ndebug b src start cnt s segment =
     (let next_write = write_start_pos (seg_at s segment) + write_start_offset (seg_at s segment)
      in if start \<noteq> next_write then
           let segment' = 1 - segment;
               s' = seg_set s segment'
                      ((seg_at s segment')\<lparr>index := write_idx b, write_start_pos := start\<rparr>)
           in if \<not> ndebug \<and> \<not> write_start_offset (seg_at s' segment') = 0 then Inl AssertionFailed
              else Inr (write_copy b src cnt
                          (seg_set s' segment' ((seg_at s' segment')\<lparr>write_start_offset := 0\<rparr>))
                          segment')
         else Inr (write_copy b src cnt s segment))"

definition write_rb ::
  "bool \<Rightarrow> 'a RaRingBuffer \<Rightarrow> 'a list \<Rightarrow> int \<Rightarrow> int \<Rightarrow> error + int \<times> 'a RaRingBuffer" where
  "write_rb ndebug b src start cnt =
     (let s = seg b; priv_write_idx = write_idx b in
      if write_start_offset (seg_at s 0) = 0 \<and> write_start_offset (seg_at s 1) = 0 then
        write_rest ndebug b src start cnt
          (seg_set s 0 ((seg_at s 0)\<lparr>index := priv_write_idx, write_start_pos := start\<rparr>)) 0
      else if write_start_offset (seg_at s 0) \<noteq> 0 then
        write_rest ndebug b src start cnt s 0
      else if write_start_offset (seg_at s 1) \<noteq> 0 then
        write_rest ndebug b src start cnt s 1
      else
        (case segment_to_use ndebug b (seg_at s 0) (seg_at s 1) priv_write_idx of
           Inl e \<Rightarrow> Inl e
         | Inr segment \<Rightarrow>
             let next_write =
                   write_start_pos (seg_at s segment) + write_start_offset (seg_at s segment)
             in if start \<noteq> next_write then Inr (0, b)
                else write_rest ndebug b src start cnt s segment))"

subsection \<open>read\<close>

text \<open>Lines 449 to 454 and 463 to 468: the physical slot of position \<open>start\<close> in a
  segment that covers it.\<close>

definition read_slot :: "'a RaRingBuffer \<Rightarrow> Segment \<Rightarrow> int \<Rightarrow> int" where
  "read_slot b sg start =
     (let lrs = seg_lrs sg;
          p = s32 ((index sg + write_start_offset sg) AND size_mask b)
      in if p > lrs - start then u32 (p - (lrs - start))
         else u32 ((u32 (size_rb b + p) - (lrs - start)) AND size_mask b))"

text \<open>Lines 443 to 471: the bit set \<open>segment\<close> of the covering segments and the slot
  of the last one found. \<open>priv_read_idx\<close> is not initialised in the source and is not read
  unless a segment covered the range; the model starts it at 0.\<close>

definition read_find :: "'a RaRingBuffer \<Rightarrow> Segment \<times> Segment \<Rightarrow> int \<Rightarrow> int \<Rightarrow> int \<times> int" where
  "read_find b s start cnt =
     (let segment = 0; priv_read_idx = 0;
          priv_read_idx = (if seg_covers b (seg_at s 0) start cnt
                           then read_slot b (seg_at s 0) start else priv_read_idx);
          segment = (if seg_covers b (seg_at s 0) start cnt then segment OR 1 else segment);
          priv_read_idx = (if seg_covers b (seg_at s 1) start cnt
                           then read_slot b (seg_at s 1) start else priv_read_idx);
          segment = (if seg_covers b (seg_at s 1) start cnt then segment OR 2 else segment)
      in (segment, priv_read_idx))"

text \<open>Lines 507 to 515 and 518 to 525: the consumed part of segment \<open>i\<close> is released.\<close>

definition shrink_seg ::
  "bool \<Rightarrow> 'a RaRingBuffer \<Rightarrow> int \<Rightarrow> int \<Rightarrow> int \<Rightarrow> int \<Rightarrow> error + 'a RaRingBuffer" where
  "shrink_seg ndebug b i start cnt priv_read_idx =
     (let end = start + cnt;
          sg = seg_at (seg b) i;
          delta = end - write_start_pos sg
      in if \<not> ndebug \<and> \<not> delta \<ge> 0 then Inl AssertionFailed
         else if \<not> ndebug \<and> \<not> delta \<le> write_start_offset sg then Inl AssertionFailed
         else Inr (b\<lparr>seg := seg_set (seg b) i
                       (sg\<lparr>write_start_pos := end,
                           write_start_offset := write_start_offset sg - delta,
                           index := priv_read_idx\<rparr>)\<rparr>))"

text \<open>Lines 500 to 533.\<close>

definition read_commit ::
  "bool \<Rightarrow> 'a RaRingBuffer \<Rightarrow> Segment \<times> Segment \<Rightarrow> int \<Rightarrow> int \<Rightarrow> int \<Rightarrow> int \<Rightarrow> int
     \<Rightarrow> error + 'a RaRingBuffer" where
  "read_commit ndebug b s w segment start cnt priv_read_idx =
     (if write_start_offset (seg_at s 0) \<noteq> 0 \<and> write_start_offset (seg_at s 1) \<noteq> 0 then
        (case segment_to_use ndebug b (seg_at s 0) (seg_at s 1) w of
           Inl e \<Rightarrow> Inl e
         | Inr u \<Rightarrow>
             let wseg = 1 - u in
             (case (if segment = 2 \<and> wseg = 1
                    then shrink_seg ndebug b 1 start cnt priv_read_idx else Inr b) of
                Inl e \<Rightarrow> Inl e
              | Inr b1 \<Rightarrow>
                  (case (if segment = 1 \<and> wseg = 0
                         then shrink_seg ndebug b1 0 start cnt priv_read_idx else Inr b1) of
                     Inl e \<Rightarrow> Inl e
                   | Inr b2 \<Rightarrow> Inr (b2\<lparr>read_idx := priv_read_idx\<rparr>))))
      else Inr (b\<lparr>read_idx := priv_read_idx\<rparr>))"

text \<open>
  \<open>read\<close>. \<open>gate_busy\<close> says that the try-lock of the reset mutex failed. The result is
  the count, the caller's array \<open>dest\<close> after the call and the buffer after the call.
\<close>

definition read ::
  "bool \<Rightarrow> bool \<Rightarrow> 'a RaRingBuffer \<Rightarrow> 'a list \<Rightarrow> int \<Rightarrow> int \<Rightarrow> bool
     \<Rightarrow> error + int \<times> 'a list \<times> 'a RaRingBuffer" where
  "read ndebug gate_busy b dest start cnt commit =
     (if gate_busy then Inr (0, dest, b)
      else
        let s = seg b; w = write_idx b;
            segment = fst (read_find b s start cnt);
            priv_read_idx = snd (read_find b s start cnt)
        in if segment \<noteq> 1 \<and> segment \<noteq> 2 then
             Inr (0, dest, if commit then b\<lparr>read_idx := w\<rparr> else b)
           else
             let cnt2 = u32 (priv_read_idx + cnt);
                 n1 = (if cnt2 > size_rb b then u32 (size_rb b - priv_read_idx) else cnt);
                 n2 = (if cnt2 > size_rb b then cnt2 AND size_mask b else 0);
                 dest1 = memcpy dest 0 (buf b) (nat priv_read_idx) (nat n1);
                 idx1 = u32 (priv_read_idx + n1) AND size_mask b;
                 dest2 = (if n2 \<noteq> 0 then memcpy dest1 (nat n1) (buf b) 0 (nat n2) else dest1);
                 idx2 = (if n2 \<noteq> 0 then n2 else idx1)
             in if commit then
                  (case read_commit ndebug b s w segment start cnt idx2 of
                     Inl e \<Rightarrow> Inl e
                   | Inr b' \<Rightarrow> Inr (cnt, dest2, b'))
                else Inr (cnt, dest2, b))"

section \<open>Notions used to state the properties\<close>

text \<open>
  A buffer is well formed for the exponent \<open>k\<close> when it looks like one the constructor
  built: the size is \<open>2^k\<close> with \<open>k\<close> from 1 to 31, the range of the constructor's loop,
  the mask and the array fit the size, and both cursors are slots of the ring.
\<close>

definition wf_rb :: "nat \<Rightarrow> 'a RaRingBuffer \<Rightarrow> bool" where
  "wf_rb k b =
     (1 \<le> k \<and> k \<le> 31 \<and> size_rb b = 2 ^ k \<and> size_mask b = size_rb b - 1 \<and>
      length (buf b) = nat (size_rb b) \<and>
      0 \<le> reservation b \<and> reservation b < 2 ^ 32 \<and>
      0 \<le> write_idx b \<and> write_idx b < size_rb b \<and>
      0 \<le> read_idx b \<and> read_idx b < size_rb b)"

text \<open>
  The spec's ring distance: the forward distance from slot \<open>a\<close> to slot \<open>c\<close>, modulo the
  size. It is 0 when the slots coincide.
\<close>

definition ring_distance :: "int \<Rightarrow> int \<Rightarrow> int \<Rightarrow> int" where
  "ring_distance sz a c = (c - a) mod sz"

text \<open>
  The distance the source computes in \<open>write_space\<close> and \<open>segment_to_use\<close>: the same
  forward distance, except that coinciding slots are a whole lap apart.
\<close>

definition lap_distance :: "int \<Rightarrow> int \<Rightarrow> int \<Rightarrow> int" where
  "lap_distance sz a c = (if a = c then sz else (c - a) mod sz)"

text \<open>The bound of the reservation invariant on the distance from the read cursor to
  the write cursor.\<close>

definition within_reservation :: "'a RaRingBuffer \<Rightarrow> bool" where
  "within_reservation b =
     (ring_distance (size_rb b) (read_idx b) (write_idx b) \<le> size_rb b - 1 - reservation b)"

text \<open>A sequence of \<open>write\<close> calls, each given as array, start position and count; an
  assertion failure ends the run.\<close>

fun run_writes ::
  "bool \<Rightarrow> 'a RaRingBuffer \<Rightarrow> ('a list \<times> int \<times> nat) list \<Rightarrow> error + 'a RaRingBuffer" where
  "run_writes ndebug b [] = Inr b"
| "run_writes ndebug b ((src, start, cnt) # ws) =
     (case write_rb ndebug b src start (int cnt) of
        Inl e \<Rightarrow> Inl e
      | Inr (n, b') \<Rightarrow> run_writes ndebug b' ws)"

text \<open>Both segments active and their derived ranges \<open>[frs, lrs)\<close> share a position.\<close>

definition seg_ranges_overlap :: "'a RaRingBuffer \<Rightarrow> bool" where
  "seg_ranges_overlap b =
     (write_start_offset (seg_at (seg b) 0) > 0 \<and> write_start_offset (seg_at (seg b) 1) > 0 \<and>
      seg_frs b (seg_at (seg b) 1) < seg_lrs (seg_at (seg b) 0) \<and>
      seg_frs b (seg_at (seg b) 0) < seg_lrs (seg_at (seg b) 1))"

text \<open>The range \<open>[start, start + cnt)\<close> handed to \<open>write\<close> meets the derived range of
  segment \<open>sg\<close>, which is active.\<close>

definition range_meets :: "'a RaRingBuffer \<Rightarrow> Segment \<Rightarrow> int \<Rightarrow> nat \<Rightarrow> bool" where
  "range_meets b sg start cnt =
     (write_start_offset sg > 0 \<and> seg_frs b sg < start + int cnt \<and> start < seg_lrs sg)"

text \<open>Every call of the sequence is handed positions that no active segment holds at
  the time of the call.\<close>

fun writes_fresh :: "bool \<Rightarrow> 'a RaRingBuffer \<Rightarrow> ('a list \<times> int \<times> nat) list \<Rightarrow> bool" where
  "writes_fresh ndebug b [] = True"
| "writes_fresh ndebug b ((src, start, cnt) # ws) =
     (\<not> range_meets b (seg_at (seg b) 0) start cnt \<and>
      \<not> range_meets b (seg_at (seg b) 1) start cnt \<and>
      (case write_rb ndebug b src start (int cnt) of
         Inl e \<Rightarrow> True
       | Inr (n, b') \<Rightarrow> writes_fresh ndebug b' ws))"

text \<open>
  The states a program can bring a buffer into: it constructs one and calls the public
  operations, with counts that are unsigned.
\<close>

inductive reachable :: "'a RaRingBuffer \<Rightarrow> bool" where
  constructed:
    "RaRingBuffer_new sz res junk mem = Inr b \<Longrightarrow> 0 \<le> res \<Longrightarrow> res < 2 ^ 32 \<Longrightarrow> reachable b"
| after_reset: "reachable b \<Longrightarrow> reachable (reset start b)"
| after_write:
    "reachable b \<Longrightarrow> write_rb ndebug b src start (int cnt) = Inr (n, b') \<Longrightarrow> reachable b'"
| after_read:
    "reachable b \<Longrightarrow> read ndebug gate_busy b dest start (int cnt) commit = Inr (n, dest', b')
       \<Longrightarrow> reachable b'"
| after_increment: "reachable b \<Longrightarrow> reachable (increment_read_idx (int cnt) b)"
| after_flush: "reachable b \<Longrightarrow> reachable (read_flush b)"

section \<open>Example states\<close>

text \<open>An arbitrary first content of the two descriptors.\<close>

definition junk0 :: Segment where
  "junk0 = \<lparr>index = 0, write_start_pos = 0, write_start_offset = 0, write_reversed = False\<rparr>"

text \<open>\<open>RaRingBuffer (8, 0)\<close>.\<close>

definition ex_fresh :: "nat RaRingBuffer" where
  "ex_fresh =
     \<lparr>buf = [0, 0, 0, 0, 0, 0, 0, 0], reservation = 0, size_rb = 8, size_mask = 7,
      seg = (junk0, junk0), write_idx = 0, read_idx = 0\<rparr>"

text \<open>After \<open>write ([1, 2], 0, 2)\<close>.\<close>

definition ex_one :: "nat RaRingBuffer" where
  "ex_one =
     \<lparr>buf = [1, 2, 0, 0, 0, 0, 0, 0], reservation = 0, size_rb = 8, size_mask = 7,
      seg = (junk0\<lparr>write_start_offset := 2\<rparr>, junk0), write_idx = 2, read_idx = 0\<rparr>"

text \<open>After a second \<open>write ([3, 4], 100, 2)\<close>: both segments are active.\<close>

definition ex_two :: "nat RaRingBuffer" where
  "ex_two =
     \<lparr>buf = [1, 2, 3, 4, 0, 0, 0, 0], reservation = 0, size_rb = 8, size_mask = 7,
      seg = (junk0\<lparr>write_start_offset := 2\<rparr>,
             \<lparr>index = 2, write_start_pos = 100, write_start_offset = 2, write_reversed = False\<rparr>),
      write_idx = 4, read_idx = 0\<rparr>"

text \<open>After \<open>write ([1, 2], 0, 2)\<close> and \<open>write ([3, 4], 0, 2)\<close>: the second segment was
  opened at a position the first one holds.\<close>

definition ex_overlap :: "nat RaRingBuffer" where
  "ex_overlap =
     \<lparr>buf = [1, 2, 3, 4, 0, 0, 0, 0], reservation = 0, size_rb = 8, size_mask = 7,
      seg = (junk0\<lparr>write_start_offset := 2\<rparr>,
             \<lparr>index = 2, write_start_pos = 0, write_start_offset = 2, write_reversed = False\<rparr>),
      write_idx = 4, read_idx = 0\<rparr>"

text \<open>
  \<open>RaRingBuffer (6, 2)\<close>, then \<open>write ([0, 1, 2, 3, 4], 0, 5)\<close>, a committing read of
  position 4, \<open>write ([5, 6, 7, 8, 9], 5, 5)\<close> and a committing read of position 3,
  which lies one element behind the position last read.
\<close>

definition ex_res :: "nat RaRingBuffer" where
  "ex_res =
     \<lparr>buf = [0, 0, 0, 0, 0, 0, 0, 0], reservation = 2, size_rb = 8, size_mask = 7,
      seg = (junk0, junk0), write_idx = 0, read_idx = 0\<rparr>"

definition ex_res1 :: "nat RaRingBuffer" where
  "ex_res1 = ex_res\<lparr>buf := [0, 1, 2, 3, 4, 0, 0, 0],
                     seg := (junk0\<lparr>write_start_offset := 5\<rparr>, junk0), write_idx := 5\<rparr>"

definition ex_res2 :: "nat RaRingBuffer" where
  "ex_res2 = ex_res1\<lparr>read_idx := 5\<rparr>"

definition ex_res3 :: "nat RaRingBuffer" where
  "ex_res3 = ex_res2\<lparr>buf := [8, 9, 2, 3, 4, 5, 6, 7],
                      seg := (junk0\<lparr>write_start_offset := 10\<rparr>, junk0), write_idx := 2\<rparr>"

definition ex_res4 :: "nat RaRingBuffer" where
  "ex_res4 = ex_res3\<lparr>read_idx := 4\<rparr>"

section \<open>Arithmetic and copy lemmas\<close>


lemma u32_id: "0 \<le> x \<Longrightarrow> x < 2 ^ 32 \<Longrightarrow> u32 x = x"
  by (simp add: u32_def)

lemma u32_nonneg [simp]: "0 \<le> u32 x"
  by (simp add: u32_def)

lemma u32_add_left [simp]: "u32 (u32 a + c) = u32 (a + c)"
  by (simp add: u32_def mod_add_left_eq)

lemma u32_diff_left [simp]: "u32 (u32 a - c) = u32 (a - c)"
  by (simp add: u32_def mod_diff_left_eq)

lemma s32_id: "0 \<le> x \<Longrightarrow> x < 2 ^ 31 \<Longrightarrow> s32 x = x"
  by (simp add: s32_def Let_def)

lemma and_mask_mod: "(x::int) AND (2 ^ k - 1) = x mod 2 ^ k"
  by (simp add: take_bit_eq_mod flip: take_bit_eq_mask mask_eq_exp_minus_1)

lemma mod_wrap_neg: "- m \<le> x \<Longrightarrow> x < 0 \<Longrightarrow> x mod m = x + (m::int)"
proof -
  assume a: "- m \<le> x" "x < 0"
  have "(x + m) mod m = x + m" using a by (intro mod_pos_pos_trivial) auto
  then show ?thesis by simp
qed

lemma mod_wrap_over: "m \<le> x \<Longrightarrow> x < 2 * m \<Longrightarrow> x mod m = x - (m::int)"
proof -
  assume a: "m \<le> x" "x < 2 * m"
  have "(x - m) mod m = x - m" using a by (intro mod_pos_pos_trivial) auto
  then show ?thesis by simp
qed

lemma pow2_bounds: "1 \<le> k \<Longrightarrow> k \<le> m \<Longrightarrow> 2 \<le> (2::int) ^ k \<and> (2::int) ^ k \<le> 2 ^ m"
proof -
  assume a: "1 \<le> k" "k \<le> m"
  have "(2::int) ^ 1 \<le> 2 ^ k" using a(1) by (intro power_increasing) simp_all
  moreover have "(2::int) ^ k \<le> 2 ^ m" using a(2) by (intro power_increasing) simp_all
  ultimately show ?thesis by simp
qed

lemma wf_size: "wf_rb k b \<Longrightarrow> 2 \<le> size_rb b \<and> size_rb b \<le> 2147483648"
  using pow2_bounds[of k 31] by (simp add: wf_rb_def)

lemma wf_mask: "wf_rb k b \<Longrightarrow> x AND size_mask b = x mod size_rb b"
  by (simp add: wf_rb_def and_mask_mod)

lemma lap_distance_cases:
  assumes "0 \<le> a" "a < n" "0 \<le> c" "c < n"
  shows "lap_distance n a c = (if a > c then c - a + n else if a < c then c - a else n)"
proof -
  have "a > c \<Longrightarrow> (c - a) mod n = c - a + n"
    using assms by (intro mod_wrap_neg) auto
  moreover have "a < c \<Longrightarrow> (c - a) mod n = c - a"
    using assms by (intro mod_pos_pos_trivial) auto
  ultimately show ?thesis by (auto simp: lap_distance_def)
qed

lemma write_space_wf:
  assumes "wf_rb k b"
  shows "write_space b =
           (if lap_distance (size_rb b) (write_idx b) (read_idx b) > reservation b
            then lap_distance (size_rb b) (write_idx b) (read_idx b) - 1 - reservation b else 0)"
proof -
  let ?w = "write_idx b" and ?r = "read_idx b" and ?n = "size_rb b"
  have sz: "2 \<le> ?n" "?n \<le> 2147483648" using wf_size[OF assms] by auto
  have ix: "0 \<le> ?w" "?w < ?n" "0 \<le> ?r" "?r < ?n" "0 \<le> reservation b"
    using assms by (auto simp: wf_rb_def)
  note ld = lap_distance_cases[OF ix(1-4)]
  have rv: "(if ?w > ?r then u32 (u32 (?r - ?w) + ?n) AND size_mask b
             else if ?w < ?r then u32 (?r - ?w) else ?n)
            = lap_distance ?n ?w ?r"
  proof (cases "?w > ?r")
    case True
    then have "u32 (?r - ?w + ?n) = ?r - ?w + ?n" using ix sz by (intro u32_id) auto
    moreover have "(?r - ?w) mod ?n = ?r - ?w + ?n" using True ix by (intro mod_wrap_neg) auto
    ultimately show ?thesis using True by (simp add: ld wf_mask[OF assms])
  next
    case False
    show ?thesis
    proof (cases "?w < ?r")
      case True
      then have "u32 (?r - ?w) = ?r - ?w" using ix sz by (intro u32_id) auto
      then show ?thesis using True by (simp add: ld)
    next
      case False
      with \<open>\<not> ?w > ?r\<close> show ?thesis by (simp add: lap_distance_def)
    qed
  qed
  have bd: "1 \<le> lap_distance ?n ?w ?r" "lap_distance ?n ?w ?r \<le> ?n"
    using ix sz by (auto simp: ld)
  have "lap_distance ?n ?w ?r > reservation b \<Longrightarrow>
        u32 (lap_distance ?n ?w ?r - 1 - reservation b) = lap_distance ?n ?w ?r - 1 - reservation b"
    using bd sz ix by (intro u32_id) auto
  then show ?thesis
    unfolding write_space_def Let_def rv by simp
qed


lemma memcpy_length [simp]: "length (memcpy dst doff src soff n) = length dst"
  by (simp add: memcpy_def)

lemma memcpy_nth:
  "j < length dst \<Longrightarrow>
   memcpy dst doff src soff n ! j =
     (if doff \<le> j \<and> j < doff + n then src ! (soff + (j - doff)) else dst ! j)"
  by (simp add: memcpy_def)

lemma memcpy_none [simp]: "memcpy dst doff src soff 0 = dst"
  by (rule nth_equalityI) (auto simp: memcpy_nth)

lemma lap_distance_bounds:
  assumes "wf_rb k b"
  shows "1 \<le> lap_distance (size_rb b) (write_idx b) (read_idx b)"
    and "lap_distance (size_rb b) (write_idx b) (read_idx b) \<le> size_rb b"
proof -
  have ix: "0 \<le> write_idx b" "write_idx b < size_rb b" "0 \<le> read_idx b" "read_idx b < size_rb b"
    using assms by (auto simp: wf_rb_def)
  show "1 \<le> lap_distance (size_rb b) (write_idx b) (read_idx b)"
    and "lap_distance (size_rb b) (write_idx b) (read_idx b) \<le> size_rb b"
    using ix by (auto simp: lap_distance_cases[OF ix])
qed

lemma write_space_range:
  assumes "wf_rb k b"
  shows "0 \<le> write_space b" and "write_space b < size_rb b"
  using lap_distance_bounds[OF assms] assms
  by (auto simp: write_space_wf[OF assms] wf_rb_def)

text \<open>What the copy of \<open>write\<close> does on a well-formed buffer with space left.\<close>

lemma write_copy_wf:
  assumes wf: "wf_rb k b" and cnt: "0 \<le> cnt" and sp: "write_space b \<noteq> 0"
  shows "write_copy b src cnt s segment =
          (min cnt (write_space b),
           b\<lparr>buf := memcpy (memcpy (buf b) (nat (write_idx b)) src 0
                               (nat (min (min cnt (write_space b)) (size_rb b - write_idx b))))
                        0 src (nat (min (min cnt (write_space b)) (size_rb b - write_idx b)))
                        (nat (min cnt (write_space b)
                              - min (min cnt (write_space b)) (size_rb b - write_idx b))),
             seg := seg_set (seg b) segment
                      ((seg_at s segment)\<lparr>write_start_offset :=
                          write_start_offset (seg_at s segment) + min cnt (write_space b)\<rparr>),
             write_idx := (write_idx b + min cnt (write_space b)) mod size_rb b\<rparr>)"
proof -
  let ?w = "write_idx b" and ?n = "size_rb b"
  define tw where "tw = min cnt (write_space b)"
  have sz: "2 \<le> ?n" "?n \<le> 2147483648" using wf_size[OF wf] by auto
  have ix: "0 \<le> ?w" "?w < ?n" using wf by (auto simp: wf_rb_def)
  have tw: "0 \<le> tw" "tw < ?n" using write_space_range[OF wf] cnt by (auto simp: tw_def)
  have tw_if: "(if cnt > write_space b then write_space b else cnt) = tw"
    by (auto simp: tw_def)
  have c2: "u32 (?w + tw) = ?w + tw" using ix tw sz by (intro u32_id) auto
  show ?thesis
  proof (cases "?w + tw > ?n")
    case True
    have n1: "u32 (?n - ?w) = ?n - ?w" using ix sz by (intro u32_id) auto
    have m1: "min tw (?n - ?w) = ?n - ?w" using True by auto
    have n2: "(?w + tw) mod ?n = ?w + tw - ?n" using True ix tw by (intro mod_wrap_over) auto
    have n2': "?w + tw - ?n \<noteq> 0" using True by auto
    have e: "tw - (?n - ?w) = ?w + tw - ?n" by simp
    show ?thesis
      unfolding write_copy_def Let_def tw_if
      using sp True
      by (simp add: c2 n1 m1 n2 n2' e wf_mask[OF wf] flip: tw_def)
  next
    case False
    have m1: "min tw (?n - ?w) = tw" using False by auto
    show ?thesis
      unfolding write_copy_def Let_def tw_if
      using sp False
      by (simp add: c2 m1 wf_mask[OF wf] flip: tw_def)
  qed
qed


section \<open>The example states are reached as described\<close>


lemmas ex_defs = ex_fresh_def ex_one_def ex_two_def ex_overlap_def ex_res_def ex_res1_def ex_res2_def ex_res3_def ex_res4_def junk0_def
lemmas op_defs = write_rb_def write_rest_def write_copy_def write_space_def seg_at_def seg_set_def u32_def s32_def
  read_def read_find_def read_slot_def read_commit_def seg_covers_def seg_frs_def seg_lrs_def memcpy_def segment_to_use_def shrink_seg_def

lemma ex_fresh_new: "RaRingBuffer_new 8 0 (junk0, junk0) (\<lambda>_. 0) = Inr ex_fresh"
  by (simp add: RaRingBuffer_new_def power_of_two_loop.simps u32_def reset_def ex_fresh_def junk0_def upt_rec)

lemma ex_res_new: "RaRingBuffer_new 6 2 (junk0, junk0) (\<lambda>_. 0) = Inr ex_res"
  by (simp add: RaRingBuffer_new_def power_of_two_loop.simps u32_def reset_def ex_res_def junk0_def upt_rec)

lemma ex_one_step: "write_rb ndebug ex_fresh [1, 2] 0 2 = Inr (2, ex_one)"
  by (simp add: ex_defs op_defs Let_def upt_rec)

lemma ex_two_step: "write_rb ndebug ex_one [3, 4] 100 2 = Inr (2, ex_two)"
  by (simp add: ex_defs op_defs Let_def upt_rec)

lemma ex_overlap_step: "write_rb ndebug ex_one [3, 4] 0 2 = Inr (2, ex_overlap)"
  by (simp add: ex_defs op_defs Let_def upt_rec)

lemma ex_res1_step: "write_rb ndebug ex_res [0, 1, 2, 3, 4] 0 5 = Inr (5, ex_res1)"
  by (simp add: ex_defs op_defs Let_def upt_rec)

lemma ex_res2_step: "read ndebug False ex_res1 [77] 4 1 True = Inr (1, [4], ex_res2)"
  by (simp add: ex_defs op_defs Let_def upt_rec)

lemma ex_res3_step: "write_rb ndebug ex_res2 [5, 6, 7, 8, 9] 5 5 = Inr (5, ex_res3)"
  by (simp add: ex_defs op_defs Let_def upt_rec)

lemma ex_res4_step: "read ndebug False ex_res3 [77] 3 1 True = Inr (1, [3], ex_res4)"
  by (simp add: ex_defs op_defs Let_def upt_rec)

lemma ex_res4_stuck: "write_rb ndebug ex_res4 [10] 10 1 = Inr (0, ex_res4)"
  by (simp add: ex_defs op_defs Let_def upt_rec)



lemma ex_two_selected:
  "segment_to_use ndebug ex_two (seg_at (seg ex_two) 0) (seg_at (seg ex_two) 1) (write_idx ex_two)
     = Inr 1"
  by (simp add: ex_defs op_defs Let_def)

section \<open>reset\<close>

text \<open>
  C8. In every buffer state and for every position \<open>p\<close>, after \<open>reset (p)\<close> both
  segments are inactive, segment 0 starts at \<open>p\<close>, the write cursor equals the read
  cursor, \<open>can_read\<close> is false for every range, and \<open>next_write_pos\<close> returns \<open>p\<close>.
\<close>

theorem reset_semantics:
  "write_start_offset (seg_at (seg (reset p b)) 0) = 0 \<and>
   write_start_offset (seg_at (seg (reset p b)) 1) = 0 \<and>
   write_start_pos (seg_at (seg (reset p b)) 0) = p \<and>
   write_idx (reset p b) = read_idx (reset p b) \<and>
   \<not> can_read (reset p b) start cnt \<and>
   next_write_pos ndebug (reset p b) = Inr p"
  by (simp add: reset_def seg_at_def can_read_def seg_covers_def next_write_pos_def)

section \<open>read: the cache miss\<close>

text \<open>When neither segment or both segments cover the range, \<open>read\<close> takes the
  \<open>NOT FOUND\<close> exit.\<close>

lemma read_not_found:
  "seg_covers b (seg_at (seg b) 0) start cnt = seg_covers b (seg_at (seg b) 1) start cnt \<Longrightarrow>
   read ndebug False b dest start cnt commit =
     Inr (0, dest, if commit then b\<lparr>read_idx := write_idx b\<rparr> else b)"
  by (simp add: read_def read_find_def Let_def)

text \<open>
  C9. When \<open>read\<close> (having passed the reset gate) finds that the range is not covered by
  exactly one active segment, it leaves \<open>dest\<close> alone and returns 0; with \<open>commit\<close> the
  read cursor becomes the sampled write cursor, without \<open>commit\<close> nothing changes.
\<close>

theorem cache_miss_commit:
  assumes "seg_covers b (seg_at (seg b) 0) start cnt = seg_covers b (seg_at (seg b) 1) start cnt"
  shows "read ndebug False b dest start cnt True = Inr (0, dest, b\<lparr>read_idx := write_idx b\<rparr>) \<and>
         read ndebug False b dest start cnt False = Inr (0, dest, b)"
  using read_not_found[OF assms] by simp

theorem cache_miss_commit_witness:
  "read False False ex_one [7] 50 1 True = Inr (0, [7], ex_one\<lparr>read_idx := write_idx ex_one\<rparr>) \<and>
   read False False ex_one [7] 50 1 False = Inr (0, [7], ex_one)"
  using cache_miss_commit[of ex_one 50 1 False "[7]"]
  by (simp add: ex_defs seg_covers_def seg_frs_def seg_lrs_def seg_at_def u32_def)

text \<open>
  C10. When the range lies within the derived ranges of both active segments, \<open>read\<close>
  serves it from neither: \<open>dest\<close> is left alone, the result is 0, and with \<open>commit\<close> the
  read cursor becomes the sampled write cursor.
\<close>

theorem double_cover_is_miss:
  assumes "seg_covers b (seg_at (seg b) 0) start cnt"
    and "seg_covers b (seg_at (seg b) 1) start cnt"
  shows "read ndebug False b dest start cnt commit =
           Inr (0, dest, if commit then b\<lparr>read_idx := write_idx b\<rparr> else b)"
  using assms by (intro read_not_found) simp

theorem double_cover_is_miss_witness:
  "seg_covers ex_overlap (seg_at (seg ex_overlap) 0) 0 2 \<and>
   seg_covers ex_overlap (seg_at (seg ex_overlap) 1) 0 2 \<and>
   read False False ex_overlap [7, 7] 0 2 True =
     Inr (0, [7, 7], ex_overlap\<lparr>read_idx := 4\<rparr>)"
proof -
  have c0: "seg_covers ex_overlap (seg_at (seg ex_overlap) 0) 0 2"
    by (simp add: ex_defs seg_covers_def seg_frs_def seg_lrs_def seg_at_def u32_def)
  have c1: "seg_covers ex_overlap (seg_at (seg ex_overlap) 1) 0 2"
    by (simp add: ex_defs seg_covers_def seg_frs_def seg_lrs_def seg_at_def u32_def)
  show ?thesis
    using double_cover_is_miss[OF c0 c1, of False "[7, 7]" True] c0 c1
    by (simp add: ex_overlap_def)
qed

section \<open>The branch for two active segments is never taken\<close>

text \<open>
  C4. With both segments active, \<open>write\<close> does not consult \<open>segment_to_use\<close>: the test
  \<open>s[0].write_start_offset != 0\<close> comes first and always chooses segment 0. In state
  \<open>ex_two\<close>, where \<open>segment_to_use\<close> selects segment 1 (next position 102), a write at
  position 2 is appended to segment 0 and returns 1; a write at position 200 replaces the
  active segment 1 when assertions are compiled out and aborts otherwise.
\<close>

theorem write_ignores_segment_to_use:
  "segment_to_use ndebug ex_two (seg_at (seg ex_two) 0) (seg_at (seg ex_two) 1) (write_idx ex_two)
     = Inr 1 \<and>
   write_start_pos (seg_at (seg ex_two) 1) + write_start_offset (seg_at (seg ex_two) 1) = 102 \<and>
   write_rb ndebug ex_two [5] 2 1 =
     Inr (1, ex_two\<lparr>buf := [1, 2, 3, 4, 5, 0, 0, 0],
                    seg := (junk0\<lparr>write_start_offset := 3\<rparr>, seg_at (seg ex_two) 1),
                    write_idx := 5\<rparr>) \<and>
   write_rb True ex_two [5] 200 1 =
     Inr (1, ex_two\<lparr>buf := [1, 2, 3, 4, 5, 0, 0, 0],
                    seg := (seg_at (seg ex_two) 0,
                            \<lparr>index = 4, write_start_pos = 200, write_start_offset = 1,
                             write_reversed = False\<rparr>),
                    write_idx := 5\<rparr>) \<and>
   write_rb False ex_two [5] 200 1 = Inl AssertionFailed"
  using ex_two_selected[of ndebug]
  by (simp add: ex_defs op_defs Let_def upt_rec)

text \<open>What \<open>next_write_pos\<close> computes in every state: the call of \<open>segment_to_use\<close>
  is unreachable, so the result never depends on the write cursor.\<close>

lemma next_write_pos_unfold:
  "next_write_pos ndebug b =
     Inr (if write_start_offset (fst (seg b)) = 0 \<and> write_start_offset (snd (seg b)) = 0
          then write_start_pos (fst (seg b))
          else if write_start_offset (fst (seg b)) \<noteq> 0
          then write_start_pos (fst (seg b)) + write_start_offset (fst (seg b))
          else write_start_pos (snd (seg b)) + write_start_offset (snd (seg b)))"
  by (simp add: next_write_pos_def seg_at_def Let_def)

text \<open>
  C6. With both segments active, \<open>next_write_pos\<close> does not consult \<open>segment_to_use\<close>
  either: in state \<open>ex_two\<close> the selected segment is 1, whose next position is 102, and
  the result is 2, the next position of segment 0.
\<close>

theorem next_write_pos_ignores_segment_to_use:
  "segment_to_use ndebug ex_two (seg_at (seg ex_two) 0) (seg_at (seg ex_two) 1) (write_idx ex_two)
     = Inr 1 \<and>
   write_start_pos (seg_at (seg ex_two) 1) + write_start_offset (seg_at (seg ex_two) 1) = 102 \<and>
   next_write_pos ndebug ex_two = Inr 2"
  using ex_two_selected[of ndebug]
  by (simp add: ex_defs next_write_pos_def seg_at_def)



section \<open>segment_to_use\<close>

lemma segment_distance:
  assumes n: "2 \<le> n" "n \<le> 1073741824"
    and i: "0 \<le> i" "i < n" and w: "0 \<le> w" "w < n"
  shows "s32 (u32 (u32 (w - i) + (if w > i then 0 else n))) = lap_distance n i w"
proof (cases "w > i")
  case True
  have "u32 (w - i) = w - i" using True n i w by (intro u32_id) auto
  moreover have "s32 (w - i) = w - i" using True n i w by (intro s32_id) auto
  ultimately show ?thesis using True by (simp add: lap_distance_cases[OF i w])
next
  case False
  have "u32 (w - i + n) = w - i + n" using False n i w by (intro u32_id) auto
  moreover have "s32 (w - i + n) = w - i + n" using False n i w by (intro s32_id) auto
  ultimately show ?thesis using False by (simp add: lap_distance_cases[OF i w])
qed

lemma lap_distance_inj:
  assumes i: "0 \<le> i" "i < n" and j: "0 \<le> j" "j < n" and w: "0 \<le> w" "w < n"
    and e: "lap_distance n i w = lap_distance n j w"
  shows "i = j"
  using e i j w
  by (simp add: lap_distance_cases[OF i w] lap_distance_cases[OF j w] split: if_splits)

text \<open>
  C7 (as amended). For two segments with distinct ring indices and a write cursor, all
  slots of a well-formed buffer of size at most \<open>2^30\<close> (so that the distances fit the
  source's \<open>int\<close>), \<open>segment_to_use\<close> returns the index of the segment
  with the smaller forward distance from its ring index to the cursor, where a segment
  whose ring index equals the cursor is a whole lap (\<open>size\<close>) away, not 0. The two
  distances differ, so the assertion holds.
\<close>

theorem segment_to_use_selection:
  assumes "wf_rb k b" and "k \<le> 30"
    and "0 \<le> index s0" "index s0 < size_rb b"
    and "0 \<le> index s1" "index s1 < size_rb b"
    and "index s0 \<noteq> index s1"
    and "0 \<le> w" "w < size_rb b"
  shows "segment_to_use ndebug b s0 s1 w =
           Inr (if lap_distance (size_rb b) (index s0) w < lap_distance (size_rb b) (index s1) w
                then 0 else 1) \<and>
         lap_distance (size_rb b) (index s0) w \<noteq> lap_distance (size_rb b) (index s1) w"
proof -
  have n: "2 \<le> size_rb b" "size_rb b \<le> 1073741824"
    using pow2_bounds[of k 30] assms(1,2) by (simp_all add: wf_rb_def)
  have ne: "lap_distance (size_rb b) (index s0) w \<noteq> lap_distance (size_rb b) (index s1) w"
    using lap_distance_inj[OF assms(3-6) assms(8,9)] assms(7) by blast
  show ?thesis
    unfolding segment_to_use_def Let_def
      segment_distance[OF n assms(3,4) assms(8,9)] segment_distance[OF n assms(5,6) assms(8,9)]
    using ne by simp
qed

theorem segment_to_use_selection_witness:
  "segment_to_use False ex_fresh (junk0\<lparr>index := 4\<rparr>) (junk0\<lparr>index := 2\<rparr>) 4 =
     Inr (if lap_distance 8 4 4 < lap_distance 8 2 4 then 0 else 1) \<and>
   lap_distance 8 4 4 \<noteq> lap_distance 8 2 4"
  using segment_to_use_selection[of 3 ex_fresh "junk0\<lparr>index := 4\<rparr>" "junk0\<lparr>index := 2\<rparr>" 4 False]
  by (simp add: wf_rb_def ex_fresh_def junk0_def)

text \<open>The claim as stated fails at the boundary: with the cursor on the ring index of
  segment 0 the spec's distance of segment 0 is 0, the smaller one, and the source
  selects segment 1.\<close>

theorem segment_to_use_boundary_counterexample:
  "ring_distance (size_rb ex_fresh) (index (junk0\<lparr>index := 4\<rparr>)) 4 = 0 \<and>
   ring_distance (size_rb ex_fresh) (index (junk0\<lparr>index := 2\<rparr>)) 4 = 2 \<and>
   segment_to_use True ex_fresh (junk0\<lparr>index := 4\<rparr>) (junk0\<lparr>index := 2\<rparr>) 4 = Inr 1 \<and>
   segment_to_use False ex_fresh (junk0\<lparr>index := 4\<rparr>) (junk0\<lparr>index := 2\<rparr>) 4 = Inr 1"
  by (simp add: ring_distance_def segment_to_use_def ex_fresh_def junk0_def u32_def s32_def Let_def)

section \<open>write: the segment choice and the space check\<close>

text \<open>\<open>write\<close> with the segment choice spelled out; the branch for two active
  segments has disappeared, since its condition cannot hold.\<close>

lemma write_rb_unfold:
  "write_rb ndebug b src start cnt =
     (let s0 = fst (seg b); s1 = snd (seg b) in
      if write_start_offset s0 = 0 \<and> write_start_offset s1 = 0 then
        Inr (write_copy b src cnt (s0\<lparr>index := write_idx b, write_start_pos := start\<rparr>, s1) 0)
      else if write_start_offset s0 \<noteq> 0 then
        if start = write_start_pos s0 + write_start_offset s0 then
          Inr (write_copy b src cnt (s0, s1) 0)
        else if \<not> ndebug \<and> write_start_offset s1 \<noteq> 0 then Inl AssertionFailed
        else Inr (write_copy b src cnt
                    (s0, s1\<lparr>index := write_idx b, write_start_pos := start,
                            write_start_offset := 0\<rparr>) 1)
      else
        if start = write_start_pos s1 + write_start_offset s1 then
          Inr (write_copy b src cnt (s0, s1) 1)
        else Inr (write_copy b src cnt
                    (s0\<lparr>index := write_idx b, write_start_pos := start,
                        write_start_offset := 0\<rparr>, s1) 0))"
  by (simp add: write_rb_def write_rest_def seg_at_def seg_set_def Let_def)

lemma write_rb_cases:
  assumes "write_rb ndebug b src start cnt = Inr r"
    and "\<And>s segment. P (write_copy b src cnt s segment)"
  shows "P r"
  using assms(1) unfolding write_rb_unfold Let_def
  by (auto split: if_splits intro: assms(2))

lemma write_rb_ndebug_returns: "\<exists>r. write_rb True b src start cnt = Inr r"
  by (simp add: write_rb_def write_rest_def Let_def)

lemma write_copy_refuses:
  assumes "wf_rb k b" "0 < cnt" "write_copy b src cnt s segment = (n, b')"
  shows "(n = 0) = (write_space b = 0)" and "n = 0 \<Longrightarrow> b' = b"
proof -
  show "(n = 0) = (write_space b = 0)"
  proof (cases "write_space b = 0")
    case True
    then show ?thesis using assms(3) by (simp add: write_copy_def)
  next
    case False
    then have "0 < write_space b" using write_space_range[OF assms(1)] by simp
    then show ?thesis
      using assms(2,3) False write_copy_wf[OF assms(1) _ False, of cnt src s segment] by auto
  qed
  then show "n = 0 \<Longrightarrow> b' = b" using assms(3) by (simp add: write_copy_def)
qed

text \<open>
  C5 (as amended). On a well-formed buffer \<open>write_space\<close> is the forward distance from
  the write cursor to the read cursor, a whole lap when the cursors coincide, minus the
  reservation, minus 1, and not below 0. A \<open>write\<close> of a positive count that returns
  at all returns 0 exactly when that quantity is 0, and then changes nothing.
\<close>

theorem write_space_formula:
  assumes "wf_rb k b"
  shows "write_space b =
           max 0 (lap_distance (size_rb b) (write_idx b) (read_idx b) - reservation b - 1) \<and>
         (0 < cnt \<and> write_rb ndebug b src start cnt = Inr (n, b') \<longrightarrow>
            ((n = 0) = (write_space b = 0)) \<and> (n = 0 \<longrightarrow> b' = b))"
proof -
  have "write_space b =
          max 0 (lap_distance (size_rb b) (write_idx b) (read_idx b) - reservation b - 1)"
    by (simp add: write_space_wf[OF assms])
  moreover have "((fst (n, b') = 0) = (write_space b = 0)) \<and> (fst (n, b') = 0 \<longrightarrow> snd (n, b') = b)"
    if "0 < cnt" "write_rb ndebug b src start cnt = Inr (n, b')"
  proof -
    show ?thesis
    proof (rule write_rb_cases[OF that(2)])
      fix s segment
      obtain m c where mc: "write_copy b src cnt s segment = (m, c)" by fastforce
      from write_copy_refuses[OF assms that(1) mc]
      show "(fst (write_copy b src cnt s segment) = 0) = (write_space b = 0) \<and>
            (fst (write_copy b src cnt s segment) = 0 \<longrightarrow> snd (write_copy b src cnt s segment) = b)"
        by (simp add: mc)
    qed
  qed
  ultimately show ?thesis by simp
qed

theorem write_space_formula_witness:
  "write_space ex_fresh = max 0 (lap_distance 8 0 0 - 0 - 1) \<and>
   (((2::int) = 0) = (write_space ex_fresh = 0))"
  using write_space_formula[of 3 ex_fresh 2 False "[1, 2]" 0 2 ex_one] ex_one_step[of False]
  by (simp add: wf_rb_def ex_fresh_def)

text \<open>The claim as stated fails for coinciding cursors: the spec's ring distance is 0 and
  its formula gives 0, while \<open>write_space\<close> is 7 and \<open>write\<close> stores both elements.\<close>

theorem write_space_equal_cursors_counterexample:
  "write_idx ex_fresh = read_idx ex_fresh \<and>
   max 0 (ring_distance (size_rb ex_fresh) (write_idx ex_fresh) (read_idx ex_fresh)
          - reservation ex_fresh - 1) = 0 \<and>
   write_space ex_fresh = 7 \<and>
   write_rb True ex_fresh [1, 2] 0 2 = Inr (2, ex_one)"
  using ex_one_step[of True]
  by (simp add: ring_distance_def write_space_def ex_fresh_def u32_def)




section \<open>The reservation invariant\<close>

lemma write_copy_effect:
  assumes wf: "wf_rb k b" and cnt: "0 \<le> cnt"
  shows "wf_rb k (snd (write_copy b src cnt s segment)) \<and>
         0 \<le> fst (write_copy b src cnt s segment) \<and>
         fst (write_copy b src cnt s segment) \<le> min cnt (write_space b) \<and>
         (within_reservation b \<or> 0 < fst (write_copy b src cnt s segment)
            \<longrightarrow> within_reservation (snd (write_copy b src cnt s segment)))"
proof (cases "write_space b = 0")
  case True
  then show ?thesis using wf cnt by (simp add: write_copy_def)
next
  case False
  let ?w = "write_idx b" and ?r = "read_idx b" and ?n = "size_rb b"
  define tw where "tw = min cnt (write_space b)"
  have sz: "2 \<le> ?n" using wf_size[OF wf] by auto
  have ix: "0 \<le> ?w" "?w < ?n" "0 \<le> ?r" "?r < ?n" "0 \<le> reservation b"
    using wf by (auto simp: wf_rb_def)
  have sp: "0 < write_space b" using write_space_range[OF wf] False by simp
  have tw: "0 \<le> tw" "tw \<le> write_space b" using cnt sp by (auto simp: tw_def)
  have ws: "write_space b = lap_distance ?n ?w ?r - 1 - reservation b"
    using sp by (simp add: write_space_wf[OF wf] split: if_splits)
  note ld = lap_distance_cases[OF ix(1-4)]
  have w': "0 \<le> (?w + tw) mod ?n" "(?w + tw) mod ?n < ?n" using sz by auto
  have dist: "((?w + tw) mod ?n - ?r) mod ?n \<le> ?n - 1 - reservation b"
  proof -
    have e: "((?w + tw) mod ?n - ?r) mod ?n = (?w + tw - ?r) mod ?n"
      by (simp add: mod_diff_left_eq)
    show ?thesis
    proof (cases "?w < ?r")
      case True
      then have "tw \<le> ?r - ?w - 1 - reservation b" using tw ws by (simp add: ld)
      then have "(?w + tw - ?r) mod ?n = ?w + tw - ?r + ?n"
        using ix tw by (intro mod_wrap_neg) auto
      then show ?thesis using \<open>tw \<le> ?r - ?w - 1 - reservation b\<close> by (simp add: e)
    next
      case False
      then have b: "tw \<le> ?n - (?w - ?r) - 1 - reservation b"
        using tw ws by (simp add: ld split: if_splits)
      then have "(?w + tw - ?r) mod ?n = ?w + tw - ?r"
        using ix tw False by (intro mod_pos_pos_trivial) auto
      then show ?thesis using b by (simp add: e)
    qed
  qed
  show ?thesis
    unfolding write_copy_wf[OF wf cnt False]
    using wf w' dist tw
    by (simp add: wf_rb_def within_reservation_def ring_distance_def flip: tw_def)
qed

lemma write_rb_effect:
  assumes "wf_rb k b" and "write_rb ndebug b src start (int cnt) = Inr (n, b')"
  shows "wf_rb k b' \<and> 0 \<le> n \<and> n \<le> min (int cnt) (write_space b) \<and>
         (within_reservation b \<or> 0 < n \<longrightarrow> within_reservation b')"
proof -
  have "wf_rb k (snd (n, b')) \<and> 0 \<le> fst (n, b') \<and> fst (n, b') \<le> min (int cnt) (write_space b) \<and>
        (within_reservation b \<or> 0 < fst (n, b') \<longrightarrow> within_reservation (snd (n, b')))"
    by (rule write_rb_cases[OF assms(2)]) (rule write_copy_effect[OF assms(1)], simp)
  then show ?thesis by simp
qed

lemma run_writes_effect:
  "wf_rb k b \<Longrightarrow> within_reservation b \<Longrightarrow> run_writes ndebug b ws = Inr b' \<Longrightarrow>
   wf_rb k b' \<and> within_reservation b'"
proof (induction ws arbitrary: b)
  case Nil
  then show ?case by simp
next
  case (Cons x ws)
  obtain src start cnt where x: "x = (src, start, cnt)" by (cases x) auto
  from Cons.prems(3) obtain n b1 where
    w: "write_rb ndebug b src start (int cnt) = Inr (n, b1)" and r: "run_writes ndebug b1 ws = Inr b'"
    by (auto simp: x split: sum.splits)
  from write_rb_effect[OF Cons.prems(1) w] Cons.prems(2)
  have "wf_rb k b1" "within_reservation b1" by auto
  from Cons.IH[OF this r] show ?case .
qed

lemma ring_put_nth:
  assumes "length bf = n" "w + n1 \<le> n" "n2 \<le> w" "j < n"
  shows "memcpy (memcpy bf w src 0 n1) 0 src n1 n2 ! j =
           (if j < n2 then src ! (n1 + j)
            else if w \<le> j \<and> j < w + n1 then src ! (j - w) else bf ! j)"
  using assms by (simp add: memcpy_nth)

text \<open>What the copy of \<open>write\<close> leaves in the array: the returned number of slots, from
  the write cursor on and wrapping at the end, hold the first elements of \<open>src\<close> in
  order; every other slot keeps its content.\<close>

lemma write_copy_buf:
  fixes b :: "'a RaRingBuffer" and src :: "'a list" and cnt :: int
    and s :: "Segment \<times> Segment" and segment :: int
  assumes wf: "wf_rb k b" and cnt: "0 \<le> cnt"
  defines "n \<equiv> fst (write_copy b src cnt s segment)"
    and "b' \<equiv> snd (write_copy b src cnt s segment)"
  shows "length (buf b') = length (buf b) \<and>
         write_idx b' = (write_idx b + n) mod size_rb b \<and>
         (j < length (buf b) \<and> n \<le> ring_distance (size_rb b) (write_idx b) (int j)
            \<longrightarrow> buf b' ! j = buf b ! j) \<and>
         (0 \<le> i \<and> i < n \<longrightarrow> buf b' ! nat ((write_idx b + i) mod size_rb b) = src ! nat i)"
proof (cases "write_space b = 0")
  case True
  have "write_idx b mod size_rb b = write_idx b"
    using wf by (simp add: wf_rb_def mod_pos_pos_trivial)
  moreover have "n = 0" "b' = b" using True by (simp_all add: n_def b'_def write_copy_def)
  ultimately show ?thesis by auto
next
  case False
  let ?w = "write_idx b" and ?n = "size_rb b"
  have sz: "2 \<le> ?n" using wf_size[OF wf] by auto
  have ix: "0 \<le> ?w" "?w < ?n" and len: "length (buf b) = nat ?n"
    using wf by (auto simp: wf_rb_def)
  define a where "a = min n (?n - ?w)"
  have n: "n = min cnt (write_space b)"
    and bf: "buf b' = memcpy (memcpy (buf b) (nat ?w) src 0 (nat a)) 0 src (nat a) (nat (n - a))"
    and w': "write_idx b' = (?w + n) mod ?n"
    unfolding n_def b'_def a_def write_copy_wf[OF wf cnt False] by simp_all
  have nb: "0 \<le> n" "n < ?n" using write_space_range[OF wf] cnt False by (auto simp: n)
  have a: "0 \<le> a" "a \<le> n" "a \<le> ?n - ?w" "n - a \<le> ?w"
    using nb ix by (auto simp: a_def)
  have nth: "buf b' ! m =
         (if m < nat (n - a) then src ! (nat a + m)
          else if nat ?w \<le> m \<and> m < nat ?w + nat a then src ! (m - nat ?w) else buf b ! m)"
    if "m < nat ?n" for m
    unfolding bf
  proof (rule ring_put_nth[where n = "nat ?n"])
    show "length (buf b) = nat ?n" by (rule len)
    show "nat ?w + nat a \<le> nat ?n" using a ix by simp
    show "nat (n - a) \<le> nat ?w" using a ix by simp
    show "m < nat ?n" by (rule that)
  qed
  have keep: "buf b' ! j = buf b ! j"
    if j: "j < length (buf b)" and d: "n \<le> ring_distance (size_rb b) (write_idx b) (int j)"
  proof -
    have jn: "int j < ?n" using j len by simp
    have o1: "\<not> j < nat (n - a)"
    proof (cases "int j < ?w")
      case True
      then have "(int j - ?w) mod ?n = int j - ?w + ?n"
        using ix by (intro mod_wrap_neg) auto
      with d have "n \<le> int j - ?w + ?n" by (simp add: ring_distance_def)
      then show ?thesis using a by (auto simp: a_def)
    next
      case False
      then show ?thesis using a by auto
    qed
    have o2: "\<not> (nat ?w \<le> j \<and> j < nat ?w + nat a)"
    proof
      assume h: "nat ?w \<le> j \<and> j < nat ?w + nat a"
      then have "(int j - ?w) mod ?n = int j - ?w"
        using ix jn by (intro mod_pos_pos_trivial) auto
      with d have "n \<le> int j - ?w" by (simp add: ring_distance_def)
      then show False using h a ix by auto
    qed
    show ?thesis using nth[of j] j len o1 o2 by simp
  qed
  have put: "buf b' ! nat ((write_idx b + i) mod size_rb b) = src ! nat i"
    if i: "0 \<le> i" "i < n"
  proof (cases "?w + i < ?n")
    case True
    then have m: "(?w + i) mod ?n = ?w + i" using ix i by (simp add: mod_pos_pos_trivial)
    have ia: "i < a" using i True by (simp add: a_def)
    have c1: "\<not> nat (?w + i) < nat (n - a)" using a ix i by auto
    have c2: "nat ?w \<le> nat (?w + i) \<and> nat (?w + i) < nat ?w + nat a"
      using ia ix i by auto
    have c3: "nat (?w + i) - nat ?w = nat i" using ix i by auto
    have lt: "nat (?w + i) < nat ?n" using True ix i by auto
    have "buf b' ! nat (?w + i) = src ! (nat (?w + i) - nat ?w)"
      using nth[OF lt] by (simp only: c1 c2 if_False if_True simp_thms)
    then show ?thesis by (simp only: m c3)
  next
    case False
    then have m: "(?w + i) mod ?n = ?w + i - ?n" using ix i nb by (intro mod_wrap_over) auto
    have an: "a = ?n - ?w" using False i by (auto simp: a_def)
    have c1: "nat (?w + i - ?n) < nat (n - a)" using False i an by auto
    have c3: "nat a + nat (?w + i - ?n) = nat i" using False i an ix by auto
    have lt: "nat (?w + i - ?n) < nat ?n" using i nb ix by auto
    have "buf b' ! nat (?w + i - ?n) = src ! (nat a + nat (?w + i - ?n))"
      using nth[OF lt] by (simp only: c1 if_True simp_thms)
    then show ?thesis by (simp only: m c3)
  qed
  show ?thesis using keep put w' by (simp add: bf)
qed


lemma write_rb_buf:
  assumes "wf_rb k b" and "write_rb ndebug b src start (int cnt) = Inr (n, b')"
  shows "length (buf b') = length (buf b) \<and>
         write_idx b' = (write_idx b + n) mod size_rb b \<and>
         (j < length (buf b) \<and> n \<le> ring_distance (size_rb b) (write_idx b) (int j)
            \<longrightarrow> buf b' ! j = buf b ! j) \<and>
         (0 \<le> i \<and> i < n \<longrightarrow> buf b' ! nat ((write_idx b + i) mod size_rb b) = src ! nat i)"
proof -
  have "length (buf (snd (n, b'))) = length (buf b) \<and>
         write_idx (snd (n, b')) = (write_idx b + fst (n, b')) mod size_rb b \<and>
         (j < length (buf b) \<and> fst (n, b') \<le> ring_distance (size_rb b) (write_idx b) (int j)
            \<longrightarrow> buf (snd (n, b')) ! j = buf b ! j) \<and>
         (0 \<le> i \<and> i < fst (n, b')
            \<longrightarrow> buf (snd (n, b')) ! nat ((write_idx b + i) mod size_rb b) = src ! nat i)"
    by (rule write_rb_cases[OF assms(2)]) (rule write_copy_buf[OF assms(1)], simp)
  then show ?thesis by simp
qed


text \<open>
  C2 (as amended). From a well-formed state in which the forward ring distance from the
  read cursor to the write cursor is at most \<open>size - 1 - reservation\<close>, the bound holds
  after any sequence of \<open>write\<close> calls. Every further \<open>write\<close> call returns a count \<open>n\<close>
  that is at most the requested count and at most the available space, and copies
  exactly that many elements: the write cursor advances by \<open>n\<close> around the ring, the \<open>n\<close>
  slots from the old write cursor on hold the first \<open>n\<close> elements of \<open>src\<close> in order, and
  every slot at ring distance \<open>n\<close> or more from the old write cursor keeps its content.
\<close>

theorem reservation_invariant:
  assumes "wf_rb k b0" and "within_reservation b0"
    and "run_writes ndebug b0 ws = Inr b"
    and "write_rb ndebug b src start (int cnt) = Inr (n, b')"
  shows "within_reservation b \<and> within_reservation b' \<and>
         0 \<le> n \<and> n \<le> min (int cnt) (write_space b) \<and>
         length (buf b') = length (buf b) \<and>
         write_idx b' = (write_idx b + n) mod size_rb b \<and>
         (j < length (buf b) \<and> n \<le> ring_distance (size_rb b) (write_idx b) (int j)
            \<longrightarrow> buf b' ! j = buf b ! j) \<and>
         (0 \<le> i \<and> i < n \<longrightarrow> buf b' ! nat ((write_idx b + i) mod size_rb b) = src ! nat i)"
proof -
  from run_writes_effect[OF assms(1-3)] have b: "wf_rb k b" "within_reservation b" by auto
  from write_rb_effect[OF b(1) assms(4)] b(2)
  have "within_reservation b \<and> within_reservation b' \<and>
         0 \<le> n \<and> n \<le> min (int cnt) (write_space b)" by simp
  with write_rb_buf[OF b(1) assms(4), of j i] show ?thesis by simp
qed

theorem reservation_invariant_witness:
  "within_reservation ex_one \<and> within_reservation ex_two \<and>
   (0::int) \<le> 2 \<and> 2 \<le> min (int 2) (write_space ex_one) \<and>
   length (buf ex_two) = length (buf ex_one) \<and>
   write_idx ex_two = (write_idx ex_one + 2) mod size_rb ex_one \<and>
   buf ex_two ! 5 = buf ex_one ! 5 \<and>
   buf ex_two ! nat ((write_idx ex_one + 1) mod size_rb ex_one) = [3, 4] ! nat 1"
proof -
  have 1: "wf_rb 3 ex_fresh" by (simp add: wf_rb_def ex_fresh_def)
  have 2: "within_reservation ex_fresh"
    by (simp add: within_reservation_def ring_distance_def ex_fresh_def)
  have 3: "run_writes False ex_fresh [([1, 2], 0, 2)] = Inr ex_one"
    using ex_one_step[of False] by simp
  have 4: "write_rb False ex_one [3, 4] 100 (int 2) = Inr (2, ex_two)"
    using ex_two_step[of False] by simp
  have 5: "5 < length (buf ex_one) \<and> 2 \<le> ring_distance (size_rb ex_one) (write_idx ex_one) (int 5)"
    by (simp add: ex_one_def ring_distance_def)
  have 6: "(0::int) \<le> 1 \<and> (1::int) < 2" by simp
  from reservation_invariant[OF 1 2 3 4, of 5 1] 5 6 show ?thesis by blast
qed

text \<open>The claim as stated fails from a state reached with reads: a committing read one
  element behind the last one moves the read cursor back, the distance becomes 6 with a
  bound of 5, and the next \<open>write\<close> returns 0 and leaves it so.\<close>

theorem reservation_invariant_counterexample:
  "RaRingBuffer_new 6 2 (junk0, junk0) (\<lambda>_. 0) = Inr ex_res \<and>
   write_rb False ex_res [0, 1, 2, 3, 4] 0 5 = Inr (5, ex_res1) \<and>
   read False False ex_res1 [77] 4 1 True = Inr (1, [4], ex_res2) \<and>
   write_rb False ex_res2 [5, 6, 7, 8, 9] 5 5 = Inr (5, ex_res3) \<and>
   read False False ex_res3 [77] 3 1 True = Inr (1, [3], ex_res4) \<and>
   run_writes False ex_res4 [([10], 10, 1)] = Inr ex_res4 \<and>
   ring_distance (size_rb ex_res4) (read_idx ex_res4) (write_idx ex_res4) = 6 \<and>
   size_rb ex_res4 - 1 - reservation ex_res4 = 5 \<and>
   \<not> within_reservation ex_res4"
  using ex_res_new ex_res1_step[of False] ex_res2_step[of False] ex_res3_step[of False]
    ex_res4_step[of False] ex_res4_stuck[of False]
  by (simp add: within_reservation_def ring_distance_def ex_defs)




section \<open>Segment exclusivity\<close>

lemma write_space_nonneg: "0 \<le> write_space b"
  by (simp add: write_space_def Let_def)

lemma write_copy_segs:
  assumes "0 \<le> cnt"
  shows "snd (write_copy b src cnt s segment) = b \<or>
         (\<exists>tw. 0 \<le> tw \<and> tw \<le> cnt \<and>
            seg (snd (write_copy b src cnt s segment)) =
              seg_set (seg b) segment
                ((seg_at s segment)\<lparr>write_start_offset := write_start_offset (seg_at s segment) + tw\<rparr>) \<and>
            size_rb (snd (write_copy b src cnt s segment)) = size_rb b)"
proof (cases "write_space b = 0")
  case True
  then show ?thesis by (simp add: write_copy_def)
next
  case False
  let ?tw = "if cnt > write_space b then write_space b else cnt"
  have "0 \<le> ?tw" "?tw \<le> cnt" using assms write_space_nonneg[of b] by auto
  then show ?thesis using False
    unfolding write_copy_def Let_def by (intro disjI2 exI[of _ ?tw]) simp
qed

lemma extend_keeps_apart:
  fixes tw c o0 o1 p0 p1 m :: int
  assumes "0 \<le> tw" "tw \<le> c" "0 < o0" "1 \<le> m"
    and "\<not> (0 < o1 \<and> p1 + o1 - min o1 m < p0 + o0 + c \<and> p0 + o0 < p1 + o1)"
    and "\<not> (0 < o0 \<and> 0 < o1 \<and> p1 + o1 - min o1 m < p0 + o0 \<and> p0 + o0 - min o0 m < p1 + o1)"
  shows "\<not> (0 < o0 + tw \<and> 0 < o1 \<and> p1 + o1 - min o1 m < p0 + (o0 + tw) \<and>
            p0 + (o0 + tw) - min (o0 + tw) m < p1 + o1)"
  using assms by (auto simp: min_def split: if_splits)

lemma open_keeps_apart:
  fixes tw c o0 p0 start m :: int
  assumes "0 \<le> tw" "tw \<le> c" "1 \<le> m"
    and "\<not> (0 < o0 \<and> p0 + o0 - min o0 m < start + c \<and> start < p0 + o0)"
  shows "\<not> (0 < o0 \<and> 0 < tw \<and> start + tw - min tw m < p0 + o0 \<and>
            p0 + o0 - min o0 m < start + tw)"
  using assms by (auto simp: min_def split: if_splits)


lemmas range_defs = seg_ranges_overlap_def range_meets_def seg_frs_def seg_lrs_def seg_at_def seg_set_def

lemma write_rb_keeps_apart:
  assumes wf: "wf_rb k b"
    and inv: "\<not> seg_ranges_overlap b" "0 \<le> write_start_offset (fst (seg b))"
      "0 \<le> write_start_offset (snd (seg b))"
    and fresh: "\<not> range_meets b (seg_at (seg b) 0) start cnt"
      "\<not> range_meets b (seg_at (seg b) 1) start cnt"
    and w: "write_rb ndebug b src start (int cnt) = Inr (n, b')"
  shows "\<not> seg_ranges_overlap b' \<and> 0 \<le> write_start_offset (fst (seg b')) \<and>
         0 \<le> write_start_offset (snd (seg b'))"
proof -
  let ?s0 = "fst (seg b)" and ?s1 = "snd (seg b)"
  define good where "good c = (\<not> seg_ranges_overlap c \<and> 0 \<le> write_start_offset (fst (seg c)) \<and>
         0 \<le> write_start_offset (snd (seg c)))" for c :: "'a RaRingBuffer"
  have m: "u32 (size_rb b - 1) = size_rb b - 1" "1 \<le> size_rb b - 1"
    using wf_size[OF wf] by (auto intro!: u32_id)
  have same: "good b" using inv by (simp add: good_def)
  have A: "good c"
    if "write_start_offset ?s0 = 0" "write_start_offset ?s1 = 0"
      "seg c = seg_set (seg b) 0 sg" "0 \<le> write_start_offset sg" for c sg
    using that by (simp add: good_def range_defs)
  have B: "good c"
    if "write_start_offset ?s0 \<noteq> 0" "start = write_start_pos ?s0 + write_start_offset ?s0"
      "0 \<le> tw" "tw \<le> int cnt" "size_rb c = size_rb b"
      "seg c = seg_set (seg b) 0 (?s0\<lparr>write_start_offset := write_start_offset ?s0 + tw\<rparr>)"
    for c tw
    using that inv fresh(2) m
      extend_keeps_apart[of tw "int cnt" "write_start_offset ?s0" "size_rb b - 1"
        "write_start_offset ?s1" "write_start_pos ?s1" "write_start_pos ?s0"]
    by (simp add: good_def range_defs)
  have D: "good c"
    if "write_start_offset ?s1 \<noteq> 0" "start = write_start_pos ?s1 + write_start_offset ?s1"
      "0 \<le> tw" "tw \<le> int cnt" "size_rb c = size_rb b"
      "seg c = seg_set (seg b) 1 (?s1\<lparr>write_start_offset := write_start_offset ?s1 + tw\<rparr>)"
    for c tw
    using that inv fresh(1) m
      extend_keeps_apart[of tw "int cnt" "write_start_offset ?s1" "size_rb b - 1"
        "write_start_offset ?s0" "write_start_pos ?s0" "write_start_pos ?s1"]
    by (auto simp add: good_def range_defs)
  have C: "good c"
    if "0 \<le> tw" "tw \<le> int cnt" "size_rb c = size_rb b"
      "seg c = seg_set (seg b) 1 sg" "write_start_pos sg = start" "write_start_offset sg = tw"
    for c tw sg
    using that inv fresh(1) m
      open_keeps_apart[of tw "int cnt" "size_rb b - 1" "write_start_offset ?s0"
        "write_start_pos ?s0" start]
    by (auto simp add: good_def range_defs)
  have E: "good c"
    if "0 \<le> tw" "tw \<le> int cnt" "size_rb c = size_rb b"
      "seg c = seg_set (seg b) 0 sg" "write_start_pos sg = start" "write_start_offset sg = tw"
    for c tw sg
    using that inv fresh(2) m
      open_keeps_apart[of tw "int cnt" "size_rb b - 1" "write_start_offset ?s1"
        "write_start_pos ?s1" start]
    by (auto simp add: good_def range_defs)
  note segs = write_copy_segs[of "int cnt" b src, simplified]
  from w consider
      (a) "write_start_offset ?s0 = 0" "write_start_offset ?s1 = 0"
        "b' = snd (write_copy b src (int cnt)
                     (?s0\<lparr>index := write_idx b, write_start_pos := start\<rparr>, ?s1) 0)"
    | (b) "write_start_offset ?s0 \<noteq> 0" "start = write_start_pos ?s0 + write_start_offset ?s0"
        "b' = snd (write_copy b src (int cnt) (?s0, ?s1) 0)"
    | (c) "write_start_offset ?s0 \<noteq> 0"
        "b' = snd (write_copy b src (int cnt)
                     (?s0, ?s1\<lparr>index := write_idx b, write_start_pos := start,
                                write_start_offset := 0\<rparr>) 1)"
    | (d) "write_start_offset ?s1 \<noteq> 0" "start = write_start_pos ?s1 + write_start_offset ?s1"
        "b' = snd (write_copy b src (int cnt) (?s0, ?s1) 1)"
    | (e) "write_start_offset ?s1 \<noteq> 0"
        "b' = snd (write_copy b src (int cnt)
                     (?s0\<lparr>index := write_idx b, write_start_pos := start,
                          write_start_offset := 0\<rparr>, ?s1) 0)"
    unfolding write_rb_unfold Let_def by (auto split: if_splits)
  then have "good b'"
  proof cases
    case a
    from segs[of "(?s0\<lparr>index := write_idx b, write_start_pos := start\<rparr>, ?s1)" 0, folded a(3)]
    show ?thesis using same a(1,2) by (auto simp: seg_at_def intro!: A)
  next
    case b
    from segs[of "(?s0, ?s1)" 0, folded b(3)]
    show ?thesis using same b(1,2) by (auto simp: seg_at_def intro!: B)
  next
    case c
    from segs[of "(?s0, ?s1\<lparr>index := write_idx b, write_start_pos := start,
                                write_start_offset := 0\<rparr>)" 1, folded c(2)]
    show ?thesis using same by (auto simp: seg_at_def intro!: C)
  next
    case d
    from segs[of "(?s0, ?s1)" 1, folded d(3)]
    show ?thesis using same d(1,2) by (auto simp: seg_at_def intro!: D)
  next
    case e
    from segs[of "(?s0\<lparr>index := write_idx b, write_start_pos := start,
                          write_start_offset := 0\<rparr>, ?s1)" 0, folded e(2)]
    show ?thesis using same by (auto simp: seg_at_def intro!: E)
  qed
  then show ?thesis by (simp add: good_def)
qed


lemma run_writes_keeps_apart:
  "wf_rb k b \<Longrightarrow> \<not> seg_ranges_overlap b \<Longrightarrow> 0 \<le> write_start_offset (fst (seg b)) \<Longrightarrow>
   0 \<le> write_start_offset (snd (seg b)) \<Longrightarrow> writes_fresh ndebug b ws \<Longrightarrow>
   run_writes ndebug b ws = Inr b' \<Longrightarrow> \<not> seg_ranges_overlap b'"
proof (induction ws arbitrary: b)
  case Nil
  then show ?case by simp
next
  case (Cons x ws)
  obtain src start cnt where x: "x = (src, start, cnt)" by (cases x) auto
  from Cons.prems(6) obtain n b1 where
    w: "write_rb ndebug b src start (int cnt) = Inr (n, b1)" and r: "run_writes ndebug b1 ws = Inr b'"
    by (auto simp: x split: sum.splits)
  from Cons.prems(5) w have
    f: "\<not> range_meets b (seg_at (seg b) 0) start cnt" "\<not> range_meets b (seg_at (seg b) 1) start cnt"
    and fs: "writes_fresh ndebug b1 ws"
    by (auto simp: x)
  from write_rb_effect[OF Cons.prems(1) w] have wf1: "wf_rb k b1" by simp
  from write_rb_keeps_apart[OF Cons.prems(1-4) f w]
  have "\<not> seg_ranges_overlap b1" "0 \<le> write_start_offset (fst (seg b1))"
    "0 \<le> write_start_offset (snd (seg b1))" by auto
  from Cons.IH[OF wf1 this fs r] show ?case .
qed

lemma reset_wf: "wf_rb k b \<Longrightarrow> wf_rb k (reset p b)"
  by (simp add: wf_rb_def reset_def)

text \<open>
  C3 (as amended). Starting from a reset well-formed buffer, a sequence of \<open>write\<close> calls
  in which no call is handed positions that lie in the derived range of a segment active
  at the time of the call never leaves two active segments whose derived ranges
  \<open>[last_range_end - min (written_length, size - 1), last_range_end)\<close> overlap.
\<close>

theorem segment_exclusivity:
  assumes "wf_rb k b" and "writes_fresh ndebug (reset p b) ws"
    and "run_writes ndebug (reset p b) ws = Inr b'"
  shows "\<not> seg_ranges_overlap b'"
proof -
  have "\<not> seg_ranges_overlap (reset p b)" "0 \<le> write_start_offset (fst (seg (reset p b)))"
    "0 \<le> write_start_offset (snd (seg (reset p b)))"
    by (simp_all add: reset_def seg_ranges_overlap_def seg_at_def)
  from run_writes_keeps_apart[OF reset_wf[OF assms(1)] this assms(2,3)] show ?thesis .
qed

lemma ex_fresh_reset: "reset 0 ex_fresh = ex_fresh"
  by (simp add: reset_def ex_fresh_def junk0_def)

theorem segment_exclusivity_witness:
  "writes_fresh False (reset 0 ex_fresh) [([1, 2], 0, 2), ([3, 4], 100, 2)] \<and>
   run_writes False (reset 0 ex_fresh) [([1, 2], 0, 2), ([3, 4], 100, 2)] = Inr ex_two \<and>
   \<not> seg_ranges_overlap ex_two"
proof -
  have 1: "wf_rb 3 ex_fresh" by (simp add: wf_rb_def ex_fresh_def)
  have 2: "writes_fresh False (reset 0 ex_fresh) [([1, 2], 0, 2), ([3, 4], 100, 2)]"
    using ex_one_step[of False] ex_two_step[of False]
    by (simp add: ex_fresh_reset)
      (simp add: range_meets_def seg_frs_def seg_lrs_def seg_at_def u32_def ex_defs)
  have 3: "run_writes False (reset 0 ex_fresh) [([1, 2], 0, 2), ([3, 4], 100, 2)] = Inr ex_two"
    using ex_one_step[of False] ex_two_step[of False] by (simp add: ex_fresh_reset)
  from segment_exclusivity[OF 1 2 3] 2 3 show ?thesis by simp
qed

text \<open>The claim as stated fails: \<open>write\<close> opens the second segment at whatever start it
  is given, also one that the first segment holds. Both segments then cover \<open>[0, 2)\<close>.\<close>

theorem segment_exclusivity_counterexample:
  "run_writes False (reset 0 ex_fresh) [([1, 2], 0, 2), ([3, 4], 0, 2)] = Inr ex_overlap \<and>
   run_writes True (reset 0 ex_fresh) [([1, 2], 0, 2), ([3, 4], 0, 2)] = Inr ex_overlap \<and>
   write_start_offset (seg_at (seg ex_overlap) 0) = 2 \<and>
   write_start_offset (seg_at (seg ex_overlap) 1) = 2 \<and>
   seg_frs ex_overlap (seg_at (seg ex_overlap) 0) = 0 \<and>
   seg_lrs (seg_at (seg ex_overlap) 0) = 2 \<and>
   seg_frs ex_overlap (seg_at (seg ex_overlap) 1) = 0 \<and>
   seg_lrs (seg_at (seg ex_overlap) 1) = 2 \<and>
   seg_ranges_overlap ex_overlap"
  using ex_one_step[of False] ex_overlap_step[of False] ex_one_step[of True] ex_overlap_step[of True]
  by (simp add: ex_fresh_reset)
    (simp add: seg_ranges_overlap_def seg_frs_def seg_lrs_def seg_at_def u32_def ex_defs)




section \<open>The round trip\<close>

lemma ring_copy_roundtrip:
  assumes "length bf = n" "length src = n1 + n2" "n1 + n2 \<le> length dest"
    and "w + n1 \<le> n" "n2 \<le> w"
  shows "take (n1 + n2)
           (memcpy (memcpy dest 0 (memcpy (memcpy bf w src 0 n1) 0 src n1 n2) w n1) n1
              (memcpy (memcpy bf w src 0 n1) 0 src n1 n2) 0 n2) = src"
proof (rule nth_equalityI)
  show "length (take (n1 + n2)
           (memcpy (memcpy dest 0 (memcpy (memcpy bf w src 0 n1) 0 src n1 n2) w n1) n1
              (memcpy (memcpy bf w src 0 n1) 0 src n1 n2) 0 n2)) = length src"
    using assms by simp
next
  fix j
  assume "j < length (take (n1 + n2)
           (memcpy (memcpy dest 0 (memcpy (memcpy bf w src 0 n1) 0 src n1 n2) w n1) n1
              (memcpy (memcpy bf w src 0 n1) 0 src n1 n2) 0 n2))"
  then have j: "j < n1 + n2" by simp
  show "take (n1 + n2)
           (memcpy (memcpy dest 0 (memcpy (memcpy bf w src 0 n1) 0 src n1 n2) w n1) n1
              (memcpy (memcpy bf w src 0 n1) 0 src n1 n2) 0 n2) ! j = src ! j"
  proof (cases "j < n1")
    case True
    then show ?thesis using j assms by (simp add: memcpy_nth)
  next
    case False
    then have "j - n1 < n2" "n1 \<le> j" "j - n1 < n" using j assms by auto
    then show ?thesis using j assms by (simp add: memcpy_nth)
  qed
qed

lemma read_slot_written:
  assumes wf: "wf_rb k b" and w: "0 \<le> w" "w < size_rb b" and N: "0 < N" "N < size_rb b"
    and sg: "index sg = w" "write_start_pos sg = P" "write_start_offset sg = N"
  shows "read_slot b sg P = w"
proof -
  let ?n = "size_rb b"
  have sz: "2 \<le> ?n" "?n \<le> 2147483648" using wf_size[OF wf] by auto
  have p: "s32 ((w + N) mod ?n) = (w + N) mod ?n"
  proof (rule s32_id)
    show "0 \<le> (w + N) mod ?n" using sz by simp
    have "(w + N) mod ?n < ?n" using sz by simp
    moreover have "?n \<le> 2 ^ 31" using sz by simp
    ultimately show "(w + N) mod ?n < 2 ^ 31" by (rule less_le_trans)
  qed
  show ?thesis
  proof (cases "w + N < ?n")
    case True
    then have m: "(w + N) mod ?n = w + N" using w N by (simp add: mod_pos_pos_trivial)
    have p: "s32 (w + N) = w + N" using p by (simp only: m)
    show ?thesis
    proof (cases "0 < w")
      case True
      then show ?thesis using w sz
        by (simp add: read_slot_def seg_lrs_def Let_def sg wf_mask[OF wf] p m u32_id)
    next
      case False
      then have w0: "w = 0" using w by simp
      have u: "u32 (?n + N) = ?n + N" using sz N by (intro u32_id) auto
      have m0: "N mod ?n = N" using m w0 by simp
      have p0: "s32 N = N" using p w0 by simp
      show ?thesis using sz
        by (simp add: read_slot_def seg_lrs_def Let_def sg wf_mask[OF wf] p0 m0 w0 u u32_id)
    qed
  next
    case False
    then have m: "(w + N) mod ?n = w + N - ?n" using w N by (intro mod_wrap_over) auto
    have p: "s32 (w + N - ?n) = w + N - ?n" using p by (simp only: m)
    have u: "u32 (w + N) = w + N" using sz w N by (intro u32_id) auto
    have wm: "w mod ?n = w" using w by (simp add: mod_pos_pos_trivial)
    show ?thesis using w sz False
      by (simp add: read_slot_def seg_lrs_def Let_def sg wf_mask[OF wf] p m u wm u32_id)
  qed
qed

lemma read_hit_nocommit:
  assumes wf: "wf_rb k b"
    and f: "read_find b (seg b) start cnt = (sgm, priv)" "sgm = 1 \<or> sgm = 2"
    and priv: "0 \<le> priv" "priv < size_rb b" and cnt: "0 \<le> cnt" "cnt < size_rb b"
  shows "read ndebug False b dest start cnt False =
           Inr (cnt,
                memcpy (memcpy dest 0 (buf b) (nat priv) (nat (min cnt (size_rb b - priv))))
                  (nat (min cnt (size_rb b - priv))) (buf b) 0
                  (nat (cnt - min cnt (size_rb b - priv))),
                b)"
proof -
  let ?n = "size_rb b"
  have sz: "2 \<le> ?n" "?n \<le> 2147483648" using wf_size[OF wf] by auto
  have c2: "u32 (priv + cnt) = priv + cnt" using priv cnt sz by (intro u32_id) auto
  have ne: "\<not> (sgm \<noteq> 1 \<and> sgm \<noteq> 2)" using f(2) by simp
  show ?thesis
  proof (cases "priv + cnt > ?n")
    case True
    have n1: "u32 (?n - priv) = ?n - priv" using priv sz by (intro u32_id) auto
    have m1: "min cnt (?n - priv) = ?n - priv" using True by auto
    have n2: "(priv + cnt) mod ?n = priv + cnt - ?n" using True priv cnt by (intro mod_wrap_over) auto
    have n2': "priv + cnt - ?n \<noteq> 0" using True by auto
    have e: "cnt - (?n - priv) = priv + cnt - ?n" by simp
    show ?thesis
      unfolding read_def Let_def f fst_conv snd_conv
      using True f(2) by (auto simp add: c2 n1 m1 n2 n2' e wf_mask[OF wf])
  next
    case False
    have m1: "min cnt (?n - priv) = cnt" using False by auto
    show ?thesis
      unfolding read_def Let_def f fst_conv snd_conv
      using False f(2) by (auto simp add: c2 m1 wf_mask[OF wf])
  qed
qed


text \<open>
  C1. For a well-formed buffer (every buffer the constructor builds is one, and the
  operations keep it so), every position \<open>P\<close> and every sequence of \<open>N\<close> elements with
  \<open>N \<le> size - reservation - 1\<close>: after \<open>reset (P)\<close>, \<open>write (src, P, N)\<close> returns \<open>N\<close>, and
  \<open>read (dest, P, N, false)\<close> on the resulting buffer returns \<open>N\<close>, leaves the buffer as
  it is, and has put the \<open>N\<close> elements, in order, at the front of \<open>dest\<close>.
\<close>

theorem write_read_roundtrip:
  assumes wf: "wf_rb k b0" and len: "length src = N"
    and fit: "int N \<le> size_rb b0 - reservation b0 - 1" and room: "N \<le> length dest"
  shows "\<exists>b' dest'.
           write_rb ndebug (reset P b0) src P (int N) = Inr (int N, b') \<and>
           read ndebug False b' dest P (int N) False = Inr (int N, dest', b') \<and>
           take N dest' = src"
proof -
  define b where "b = reset P b0"
  let ?n = "size_rb b" and ?w = "write_idx b"
  let ?s = "((fst (seg b))\<lparr>index := ?w, write_start_pos := P\<rparr>, snd (seg b))"
  have wfb: "wf_rb k b" unfolding b_def by (rule reset_wf[OF wf])
  have eq: "read_idx b = ?w" by (simp add: b_def reset_def)
  have offs: "write_start_offset (fst (seg b)) = 0" "write_start_offset (snd (seg b)) = 0"
    by (simp_all add: b_def reset_def)
  have fit': "int N \<le> ?n - reservation b - 1" using fit by (simp add: b_def reset_def)
  have sz: "2 \<le> ?n" "?n \<le> 2147483648" using wf_size[OF wfb] by auto
  have ix: "0 \<le> ?w" "?w < ?n" "0 \<le> reservation b" using wfb by (auto simp: wf_rb_def)
  have wr: "write_rb ndebug b src P (int N) = Inr (write_copy b src (int N) ?s 0)"
    by (simp add: write_rb_unfold offs)
  have ws: "write_space b = (if ?n > reservation b then ?n - 1 - reservation b else 0)"
    by (simp add: write_space_wf[OF wfb] eq lap_distance_def)
  show ?thesis
  proof (cases "N = 0")
    case True
    define c where "c = snd (write_copy b src (int N) ?s 0)"
    have n0: "fst (write_copy b src (int N) ?s 0) = 0"
      using write_copy_effect[OF wfb, of "int N" src ?s 0] True by simp
    have inactive: "write_start_offset (seg_at (seg c) 0) = 0"
      "write_start_offset (seg_at (seg c) 1) = 0"
      using write_copy_segs[of "int N" b src ?s 0] True offs
      by (auto simp: c_def seg_at_def seg_set_def)
    have w: "write_rb ndebug (reset P b0) src P (int N) = Inr (int N, c)"
      using wr n0 True by (simp add: b_def c_def prod_eq_iff)
    have "read ndebug False c dest P (int N) False = Inr (0, dest, c)"
      using read_not_found[of c P "int N" ndebug dest False] inactive
      by (simp add: seg_covers_def)
    with w True len show ?thesis by auto
  next
    case False
    then have N: "0 < int N" "int N < ?n" using fit' ix by auto
    have sp: "write_space b \<noteq> 0" "min (int N) (write_space b) = int N"
      using fit' N ws by (auto split: if_splits)
    define a where "a = min (int N) (?n - ?w)"
    have a: "0 \<le> a" "a \<le> int N" "a \<le> ?n - ?w" "int N - a \<le> ?w"
      using N ix by (auto simp: a_def)
    define bf where "bf = memcpy (memcpy (buf b) (nat ?w) src 0 (nat a)) 0 src (nat a) (nat (int N - a))"
    define sg where "sg = (fst (seg b))\<lparr>index := ?w, write_start_pos := P, write_start_offset := int N\<rparr>"
    define c where "c = b\<lparr>buf := bf, seg := (sg, snd (seg b)), write_idx := (?w + int N) mod ?n\<rparr>"
    have wc: "write_copy b src (int N) ?s 0 = (int N, c)"
      using write_copy_wf[OF wfb _ sp(1), of "int N" src ?s 0]
      by (simp add: sp(2) c_def bf_def sg_def a_def seg_at_def seg_set_def offs)
    then have w: "write_rb ndebug (reset P b0) src P (int N) = Inr (int N, c)"
      using wr by (simp add: b_def)
    have wfc: "wf_rb k c"
      using write_copy_effect[OF wfb, of "int N" src ?s 0] by (simp add: wc)
    have szc: "size_rb c = ?n" "buf c = bf" "seg c = (sg, snd (seg b))"
      by (simp_all add: c_def)
    have m: "u32 (?n - 1) = ?n - 1" using sz by (intro u32_id) auto
    have cov0: "seg_covers c sg P (int N)"
      using N by (simp add: seg_covers_def seg_frs_def seg_lrs_def sg_def szc m)
    have cov1: "\<not> seg_covers c (snd (seg b)) P (int N)"
      by (simp add: seg_covers_def offs)
    have slot: "read_slot c sg P = ?w"
      using read_slot_written[OF wfc, of ?w "int N" sg P] ix N
      by (simp add: szc sg_def)
    have find: "read_find c (seg c) P (int N) = (1, ?w)"
      by (simp add: read_find_def Let_def szc seg_at_def cov0 cov1 slot)
    have rd: "read ndebug False c dest P (int N) False =
                Inr (int N,
                     memcpy (memcpy dest 0 bf (nat ?w) (nat a)) (nat a) bf 0 (nat (int N - a)), c)"
      using read_hit_nocommit[OF wfc find _ _ _ _, of ndebug dest] ix N
      by (simp add: szc a_def)
    have split: "nat a + nat (int N - a) = N" using a by simp
    have "take (nat a + nat (int N - a))
            (memcpy (memcpy dest 0 bf (nat ?w) (nat a)) (nat a) bf 0 (nat (int N - a))) = src"
      unfolding bf_def
    proof (rule ring_copy_roundtrip[where n = "nat ?n"])
      show "length (buf b) = nat ?n" using wfb by (simp add: wf_rb_def)
      show "length src = nat a + nat (int N - a)" using len split by simp
      show "nat a + nat (int N - a) \<le> length dest" using room split by simp
      show "nat ?w + nat a \<le> nat ?n" using a ix by simp
      show "nat (int N - a) \<le> nat ?w" using a ix by simp
    qed
    then have "take N (memcpy (memcpy dest 0 bf (nat ?w) (nat a)) (nat a) bf 0 (nat (int N - a))) = src"
      by (simp only: split)
    with w rd show ?thesis by blast
  qed
qed

text \<open>The witness starts at slot 5 of a ring of 8 slots, so the five elements wrap.\<close>

theorem write_read_roundtrip_witness:
  "\<exists>b' dest'.
     write_rb False (reset 40 ex_res2) [1, 2, 3, 4, 5] 40 (int 5) = Inr (int 5, b') \<and>
     read False False b' [0, 0, 0, 0, 0, 0] 40 (int 5) False = Inr (int 5, dest', b') \<and>
     take 5 dest' = [1, 2, 3, 4, 5::nat]"
  using write_read_roundtrip[of 3 ex_res2 "[1, 2, 3, 4, 5]" 5 "[0, 0, 0, 0, 0, 0]" False 40]
  by (simp add: wf_rb_def ex_defs)


section \<open>Well-formedness is an invariant\<close>


lemma power_of_two_loop_range:
  "power_of_two_loop sz p = Inr q \<Longrightarrow> p \<le> q \<and> q < 32"
proof (induction sz p rule: power_of_two_loop.induct)
  case (1 sz p)
  show ?case
  proof (cases "p < 32 \<and> u32 (2 ^ p) < sz")
    case True
    then have "power_of_two_loop sz (p + 1) = Inr q"
      using "1.prems" by (subst (asm) power_of_two_loop.simps) simp
    with "1.IH" True show ?thesis by force
  next
    case False
    then show ?thesis using "1.prems"
      by (subst (asm) power_of_two_loop.simps) (auto split: if_splits)
  qed
qed

lemma power_of_two_loop_covers:
  "power_of_two_loop sz p = Inr q \<Longrightarrow> sz \<le> 2 ^ q"
proof (induction sz p rule: power_of_two_loop.induct)
  case (1 sz p)
  show ?case
  proof (cases "p < 32 \<and> u32 (2 ^ p) < sz")
    case True
    then have "power_of_two_loop sz (p + 1) = Inr q"
      using "1.prems" by (subst (asm) power_of_two_loop.simps) simp
    with "1.IH" True show ?thesis by force
  next
    case False
    then have q: "q = p" "p < 32" "\<not> u32 (2 ^ p) < sz" using "1.prems"
      by (subst (asm) power_of_two_loop.simps; auto split: if_splits)+
    have "(2::int) ^ p \<le> 2 ^ 31" using q(2) by (intro power_increasing) simp_all
    then have "u32 (2 ^ p) = 2 ^ p" by (intro u32_id) simp_all
    with q show ?thesis by simp
  qed
qed

text \<open>Every buffer the constructor returns is well formed, and its size is a power of
  two that is at least the wrapped sum of capacity and reservation.\<close>

lemma RaRingBuffer_new_wf:
  assumes "RaRingBuffer_new sz res junk mem = Inr b" and "0 \<le> res" "res < 2 ^ 32"
  shows "\<exists>k. wf_rb k b \<and> u32 (sz + res) \<le> size_rb b \<and> reservation b = res"
proof -
  from assms(1) obtain q where q: "power_of_two_loop (u32 (sz + res)) 1 = Inr q"
    by (auto simp: RaRingBuffer_new_def split: sum.splits)
  from power_of_two_loop_range[OF q] have r: "1 \<le> q" "q \<le> 31" by auto
  from pow2_bounds[OF r] have p: "2 \<le> (2::int) ^ q" "(2::int) ^ q \<le> 2147483648" by auto
  have u: "u32 (2 ^ q) = 2 ^ q" using p by (intro u32_id) auto
  have u': "u32 (2 ^ q - 1) = 2 ^ q - 1" using p by (intro u32_id) auto
  have b: "b = reset 0 \<lparr>buf = map mem [0..<nat (2 ^ q)], reservation = res, size_rb = 2 ^ q,
                  size_mask = 2 ^ q - 1, seg = junk, write_idx = 0, read_idx = 0\<rparr>"
    using assms(1) unfolding RaRingBuffer_new_def q by (simp add: Let_def u u')
  have "wf_rb q b" using r p assms(2,3) by (simp add: b wf_rb_def reset_def)
  moreover have "u32 (sz + res) \<le> size_rb b"
    using power_of_two_loop_covers[OF q] by (simp add: b reset_def)
  moreover have "reservation b = res" by (simp add: b reset_def)
  ultimately show ?thesis by blast
qed

lemma masked_in_ring:
  assumes "wf_rb k b"
  shows "0 \<le> x AND size_mask b" and "x AND size_mask b < size_rb b"
  using wf_size[OF assms] by (simp_all add: wf_mask[OF assms])

lemma read_flush_wf: "wf_rb k b \<Longrightarrow> wf_rb k (read_flush b)"
  by (simp add: wf_rb_def read_flush_def)

lemma increment_read_idx_wf:
  assumes "wf_rb k b" shows "wf_rb k (increment_read_idx cnt b)"
  using masked_in_ring[OF assms] assms by (simp add: wf_rb_def increment_read_idx_def Let_def)

lemma shrink_seg_wf: "wf_rb k b \<Longrightarrow> shrink_seg ndebug b i start cnt p = Inr b' \<Longrightarrow> wf_rb k b'"
  by (auto simp: shrink_seg_def Let_def wf_rb_def split: if_splits)

lemma read_commit_wf:
  assumes "wf_rb k b" and "read_commit ndebug b s w segment start cnt p = Inr b'"
    and "0 \<le> p" "p < size_rb b"
  shows "wf_rb k b'"
proof -
  have set: "wf_rb k (c\<lparr>read_idx := p\<rparr>)" if "wf_rb k c" for c :: "'a RaRingBuffer"
    using that assms(3,4) assms(1) by (simp add: wf_rb_def)
  show ?thesis
    using assms(1,2) unfolding read_commit_def Let_def
    by (auto split: if_splits sum.splits intro!: set dest: shrink_seg_wf)
qed

lemma read_wf:
  assumes wf: "wf_rb k b" and r: "read ndebug gate_busy b dest start cnt commit = Inr (n, dest', b')"
  shows "wf_rb k b'"
proof -
  let ?p = "snd (read_find b (seg b) start cnt)"
  let ?cnt2 = "u32 (?p + cnt)"
  let ?n1 = "if ?cnt2 > size_rb b then u32 (size_rb b - ?p) else cnt"
  let ?n2 = "if ?cnt2 > size_rb b then ?cnt2 AND size_mask b else 0"
  let ?idx = "if ?n2 \<noteq> 0 then ?n2 else u32 (?p + ?n1) AND size_mask b"
  have idx: "0 \<le> ?idx" "?idx < size_rb b"
    using masked_in_ring[OF wf] wf_size[OF wf] by (auto simp: Let_def)
  have w: "wf_rb k (b\<lparr>read_idx := write_idx b\<rparr>)" using wf by (simp add: wf_rb_def)
  show ?thesis
    using r wf w read_commit_wf[OF wf _ idx]
    unfolding read_def Let_def
    by (auto split: if_splits sum.splits)
qed


text \<open>Every reachable state is well formed, so the theorems above that assume a
  well-formed buffer hold in every reachable state.\<close>

lemma reachable_wf: "reachable b \<Longrightarrow> \<exists>k. wf_rb k b"
proof (induction rule: reachable.induct)
  case (constructed sz res junk mem b)
  from RaRingBuffer_new_wf[OF this] show ?case by blast
next
  case (after_reset b start)
  then show ?case using reset_wf by blast
next
  case (after_write b ndebug src start cnt n b')
  then show ?case using write_rb_effect by blast
next
  case (after_read b ndebug gate_busy dest start cnt commit n dest' b')
  then show ?case using read_wf by blast
next
  case (after_increment b cnt)
  then show ?case using increment_read_idx_wf by blast
next
  case (after_flush b)
  then show ?case using read_flush_wf by blast
qed

text \<open>The state in which the reservation bound is exceeded is a reachable one.\<close>

lemma ex_res4_reachable: "reachable ex_res4"
proof -
  have "reachable ex_res" using ex_res_new by (rule constructed) simp_all
  then have "reachable ex_res1" using ex_res1_step[of False] by (rule after_write[where cnt = 5, simplified])
  then have "reachable ex_res2" using ex_res2_step[of False] by (rule after_read[where cnt = 1, simplified])
  then have "reachable ex_res3" using ex_res3_step[of False] by (rule after_write[where cnt = 5, simplified])
  then show ?thesis using ex_res4_step[of False] by (rule after_read[where cnt = 1, simplified])
qed

end
